theory Spec2Isabelle
  imports Main "HOL-Library.Word"
begin

section \<open>Data model of jieba.go\<close>

text \<open>
  The Go file is a cgo bridge: every operation either touches the fields of a
  \<open>Jieba\<close> struct behind a pointer, the three package variables of the shared
  instance, or calls into the native engine. The model makes all of this explicit:
  the Go heap of \<open>Jieba\<close> structs is a list indexed by address, a \<open>*Jieba\<close> is an
  optional address (\<open>None\<close> is \<open>nil\<close>), every call that crosses the cgo boundary
  is appended to a trace, and a panic is a value.
\<close>

type_synonym addr = nat

text \<open>\<open>C.Jieba\<close> is an opaque native pointer; \<open>None\<close> is the nil pointer.\<close>

type_synonym C_Jieba = "nat option"

datatype error =
    Panic string
  | NilDeref
  | IndexOutOfRange
  | NativeFault

text \<open>\<open>type Word struct { Str string; Start int; End int }\<close>\<close>

record Word =
  Str :: string
  Start :: "64 word"
  End :: "64 word"

text \<open>\<open>type Jieba struct { jieba C.Jieba; freed int32 }\<close>\<close>

record Jieba =
  jieba :: C_Jieba
  freed :: "32 word"

text \<open>\<open>type WordWeight struct { Word string; Weight float64 }\<close>, and the native
  \<open>struct CWordWeight\<close> whose \<open>word\<close> field is a C string or null. The weight is
  only copied (the \<open>float64\<close> of a C double), so its representation is a type
  parameter.\<close>

record 'f WordWeight =
  Word :: string
  Weight :: 'f

record 'f CWordWeight =
  word :: "string option"
  weight :: 'f

text \<open>
  The calls that cross the cgo boundary, with their arguments as the native side
  receives them: a C string is its content, a C \<open>int\<close> is a 32-bit word.
\<close>

datatype ncall =
    C_CString string
  | C_free string
  | C_NewJieba string string string string string
  | C_FreeJieba C_Jieba
  | C_Cut C_Jieba string "32 word"
  | C_CutAll C_Jieba string
  | C_CutForSearch C_Jieba string "32 word"
  | C_Tag C_Jieba string
  | C_AddWord C_Jieba string
  | C_AddWordEx C_Jieba string "32 word" string
  | C_RemoveWord C_Jieba string
  | C_Tokenize C_Jieba string "32 word" "32 word"
  | C_Extract C_Jieba string "32 word"
  | C_ExtractWithWeight C_Jieba string "32 word"
  | C_FreeWords
  | C_free_Words
  | C_FreeWordWeights

text \<open>
  What \<open>os.Stat\<close> answers for a path: file information, the error for which
  \<open>os.IsNotExist\<close> holds (no such file or directory), the error of a path that
  runs through a regular file (not a directory: there is no file at such a path
  either, but \<open>os.IsNotExist\<close> does not hold of it), or another error, such as a
  denied permission, which leaves open whether the file is there.
\<close>

datatype stat_result = StatOk | ErrNotExist | ErrNotDir | ErrOther


text \<open>
  The state of the process as far as this file sees it: the allocated \<open>Jieba\<close>
  structs, the handles that have a finalizer registered with the runtime, the
  package variables \<open>sharedInstance\<close>, \<open>sharedInstanceOnce\<close> (its done flag) and
  \<open>sharedInstanceLock\<close> (its number of readers), the file system, and the native
  calls made so far.
\<close>

record world =
  heap :: "Jieba list"
  finalizers :: "addr set"
  sharedInstance :: "addr option"
  sharedInstanceOnce :: bool
  sharedInstanceLock :: nat
  fs :: "string \<Rightarrow> stat_result"
  trace :: "ncall list"

definition deref :: "addr option \<Rightarrow> world \<Rightarrow> Jieba option" where
  "deref x w = (case x of None \<Rightarrow> None
                | Some a \<Rightarrow> if a < length (heap w) then Some (heap w ! a) else None)"

definition store :: "addr \<Rightarrow> Jieba \<Rightarrow> world \<Rightarrow> world" where
  "store a j w = w\<lparr>heap := (heap w)[a := j]\<rparr>"

definition emit :: "ncall \<Rightarrow> world \<Rightarrow> world" where
  "emit c w = w\<lparr>trace := trace w @ [c]\<rparr>"

definition emits :: "ncall list \<Rightarrow> world \<Rightarrow> world" where
  "emits cs w = w\<lparr>trace := trace w @ cs\<rparr>"

text \<open>\<open>runtime.SetFinalizer(x, f)\<close> and \<open>runtime.SetFinalizer(x, nil)\<close>.\<close>

definition SetFinalizer :: "addr \<Rightarrow> bool \<Rightarrow> world \<Rightarrow> world" where
  "SetFinalizer a on w =
     w\<lparr>finalizers := (if on then insert a (finalizers w) else finalizers w - {a})\<rparr>"

section \<open>Free and the freed guard\<close>

text \<open>\<open>atomic.LoadInt32(&x.freed)\<close>; taking the field's address of a nil pointer
  panics.\<close>

definition LoadInt32_freed :: "addr option \<Rightarrow> world \<Rightarrow> error + 32 word" where
  "LoadInt32_freed x w = (case deref x w of None \<Rightarrow> Inl NilDeref | Some j \<Rightarrow> Inr (freed j))"

text \<open>\<open>atomic.CompareAndSwapInt32(&x.freed, old, new)\<close>, one atomic step.\<close>

definition CompareAndSwapInt32_freed ::
  "addr option \<Rightarrow> 32 word \<Rightarrow> 32 word \<Rightarrow> world \<Rightarrow> (error + bool) \<times> world" where
  "CompareAndSwapInt32_freed x old new w =
     (case x of None \<Rightarrow> (Inl NilDeref, w)
      | Some a \<Rightarrow>
          (case deref x w of None \<Rightarrow> (Inl NilDeref, w)
           | Some j \<Rightarrow>
               if freed j = old then (Inr True, store a (j\<lparr>freed := new\<rparr>) w)
               else (Inr False, w)))"

text \<open>The three statements of the body of \<open>Free\<close>'s \<open>if\<close>, each on a non-nil
  handle: \<open>C.FreeJieba(x.jieba)\<close>, \<open>x.jieba = nil\<close>, \<open>runtime.SetFinalizer(x, nil)\<close>.\<close>

definition Free_release :: "addr \<Rightarrow> world \<Rightarrow> world" where
  "Free_release a w = emit (C_FreeJieba (jieba (heap w ! a))) w"

definition Free_clear :: "addr \<Rightarrow> world \<Rightarrow> world" where
  "Free_clear a w = store a ((heap w ! a)\<lparr>jieba := None\<rparr>) w"

definition Free_unhook :: "addr \<Rightarrow> world \<Rightarrow> world" where
  "Free_unhook a w = SetFinalizer a False w"

definition Free :: "addr option \<Rightarrow> world \<Rightarrow> (error + unit) \<times> world" where
  "Free x w =
     (case CompareAndSwapInt32_freed x 0 1 w of
        (Inl e, w') \<Rightarrow> (Inl e, w')
      | (Inr False, w') \<Rightarrow> (Inr (), w')
      | (Inr True, w') \<Rightarrow>
          (case x of None \<Rightarrow> (Inl NilDeref, w')
           | Some a \<Rightarrow> (Inr (), Free_unhook a (Free_clear a (Free_release a w')))))"

definition checkFreed :: "addr option \<Rightarrow> world \<Rightarrow> error + unit" where
  "checkFreed x w =
     (case LoadInt32_freed x w of
        Inl e \<Rightarrow> Inl e
      | Inr f \<Rightarrow> if f \<noteq> 0 then Inl (Panic ''Jieba instance has been freed'') else Inr ())"

section \<open>The weighted-pair converter\<close>

text \<open>
  \<open>cwordweights\<close> receives a pointer into native memory and advances it by the
  size of one record until it reads a record whose \<open>word\<close> is null. The argument
  of the model is the list of records that can be read from that pointer on;
  stepping past the last of them is a fault of the native memory. The accumulator
  is the slice \<open>s\<close> of the loop.
\<close>

fun cwordweights_loop :: "'f CWordWeight list \<Rightarrow> 'f WordWeight list \<Rightarrow> error + 'f WordWeight list" where
  "cwordweights_loop [] s = Inl NativeFault"
| "cwordweights_loop (x # xs) s =
     (case word x of
        None \<Rightarrow> Inr s
      | Some cs \<Rightarrow> cwordweights_loop xs (s @ [\<lparr>Word = cs, Weight = weight x\<rparr>]))"

definition cwordweights :: "'f CWordWeight list \<Rightarrow> error + 'f WordWeight list" where
  "cwordweights x = cwordweights_loop x []"

text \<open>A native record holding a word, the record that ends an array, and the
  pair the converter makes of the former.\<close>

definition c_record :: "string \<times> 'f \<Rightarrow> 'f CWordWeight" where
  "c_record p = \<lparr>word = Some (fst p), weight = snd p\<rparr>"

definition c_sentinel :: "'f \<Rightarrow> 'f CWordWeight" where
  "c_sentinel f = \<lparr>word = None, weight = f\<rparr>"

definition go_pair :: "string \<times> 'f \<Rightarrow> 'f WordWeight" where
  "go_pair p = \<lparr>Word = fst p, Weight = snd p\<rparr>"

section \<open>What this file takes from outside\<close>

text \<open>
  \<open>getDictPaths\<close>, \<open>cstrings\<close> and \<open>convertWords\<close> are functions of the package
  that live in other files, and the native engine is a C++ library. They are
  parameters of the model, so every theorem holds for whatever they compute. The
  value a native call returns is a function of all native calls made so far, the
  call itself included: the engine is deterministic but has a state of its own.
  \<open>'ca\<close> is a native array of C strings, \<open>'cw\<close> a native array of \<open>C.Word\<close>; the
  array of \<open>struct CWordWeight\<close> is the list of records readable from the pointer
  that \<open>C.ExtractWithWeight\<close> returns.
\<close>

record ('ca, 'cw, 'f) env =
  getDictPaths :: "string list \<Rightarrow> error + string list"
  cstrings :: "'ca \<Rightarrow> error + string list"
  convertWords :: "string \<Rightarrow> 'cw \<Rightarrow> error + Word list"
  ret_NewJieba :: "ncall list \<Rightarrow> C_Jieba"
  ret_chars :: "ncall list \<Rightarrow> 'ca"
  ret_Words :: "ncall list \<Rightarrow> 'cw"
  ret_WordWeights :: "ncall list \<Rightarrow> 'f CWordWeight list"

section \<open>NewJieba\<close>

text \<open>The loop over \<open>dictpaths\<close>: the first path that \<open>os.Stat\<close> reports as not
  existing panics with a message that ends in that path.\<close>

fun check_dict_files :: "(string \<Rightarrow> stat_result) \<Rightarrow> string list \<Rightarrow> error + unit" where
  "check_dict_files f [] = Inr ()"
| "check_dict_files f (path # rest) =
     (if f path = ErrNotExist
      then Inl (Panic (''Dictionary file does not exist: '' @ path))
      else check_dict_files f rest)"

text \<open>
  After the loop the five C strings are made, the native initializer is called,
  the struct is allocated with \<open>freed = 0\<close>, \<open>Free\<close> is registered as its
  finalizer, and the deferred \<open>C.free\<close> calls run, last deferred first. The code
  indexes \<open>dictpaths\<close> at 0 to 4; should \<open>getDictPaths\<close> return fewer than five
  paths, the index expression panics after the C strings before it were made.
\<close>

definition NewJieba :: "('ca, 'cw, 'f) env \<Rightarrow> string list \<Rightarrow> world \<Rightarrow> (error + addr) \<times> world" where
  "NewJieba E paths w =
     (case getDictPaths E paths of
        Inl e \<Rightarrow> (Inl e, w)
      | Inr dictpaths \<Rightarrow>
          (case check_dict_files (fs w) dictpaths of
             Inl e \<Rightarrow> (Inl e, w)
           | Inr _ \<Rightarrow>
               if length dictpaths < 5
               then (Inl IndexOutOfRange, emits (map C_CString dictpaths) w)
               else
                 let dpath = dictpaths ! 0; hpath = dictpaths ! 1; upath = dictpaths ! 2;
                     ipath = dictpaths ! 3; spath = dictpaths ! 4;
                     w1 = emits [C_CString dpath, C_CString hpath, C_CString upath,
                                 C_CString ipath, C_CString spath] w;
                     w2 = emit (C_NewJieba dpath hpath upath ipath spath) w1;
                     a = length (heap w2);
                     w3 = w2\<lparr>heap := heap w2 @ [\<lparr>jieba = ret_NewJieba E (trace w2), freed = 0\<rparr>]\<rparr>;
                     w4 = SetFinalizer a True w3
                 in (Inr a, emits [C_free spath, C_free ipath, C_free upath,
                                   C_free hpath, C_free dpath] w4)))"

section \<open>GetSharedInstance\<close>

text \<open>
  \<open>sharedInstanceOnce.Do(f)\<close>, as Go's \<open>sync.Once\<close> behaves: \<open>f\<close> runs only while
  the done flag is unset, and the flag is set by a deferred store, so it is set
  also when \<open>f\<close> panics. Callers that arrive while \<open>f\<close> runs wait for it, so the
  whole of \<open>Do\<close> is one step.
\<close>

definition once_Do ::
  "(world \<Rightarrow> (error + unit) \<times> world) \<Rightarrow> world \<Rightarrow> (error + unit) \<times> world" where
  "once_Do f w =
     (if sharedInstanceOnce w then (Inr (), w)
      else (case f w of (r, w') \<Rightarrow> (r, w'\<lparr>sharedInstanceOnce := True\<rparr>)))"

text \<open>The function literal passed to \<open>Do\<close>.\<close>

definition shared_init :: "('ca, 'cw, 'f) env \<Rightarrow> string list \<Rightarrow> world \<Rightarrow> (error + unit) \<times> world" where
  "shared_init E paths w =
     (case NewJieba E paths w of
        (Inl e, w') \<Rightarrow> (Inl e, w')
      | (Inr a, w') \<Rightarrow> (Inr (), SetFinalizer a False (w'\<lparr>sharedInstance := Some a\<rparr>)))"

definition RLock :: "world \<Rightarrow> world" where
  "RLock w = w\<lparr>sharedInstanceLock := Suc (sharedInstanceLock w)\<rparr>"

definition RUnlock :: "world \<Rightarrow> world" where
  "RUnlock w = w\<lparr>sharedInstanceLock := sharedInstanceLock w - 1\<rparr>"

definition GetSharedInstance ::
  "('ca, 'cw, 'f) env \<Rightarrow> string list \<Rightarrow> world \<Rightarrow> (error + addr option) \<times> world" where
  "GetSharedInstance E paths w =
     (case once_Do (shared_init E paths) w of
        (Inl e, w1) \<Rightarrow> (Inl e, w1)
      | (Inr _, w1) \<Rightarrow>
          let w2 = RLock w1 in
          (case LoadInt32_freed (sharedInstance w2) w2 of
             Inl e \<Rightarrow> (Inl e, RUnlock w2)
           | Inr f \<Rightarrow>
               if f \<noteq> 0
               then (Inl (Panic ''Shared Jieba instance has been freed''), RUnlock w2)
               else (Inr (sharedInstance w2), RUnlock w2)))"

text \<open>
  A call of \<open>GetSharedInstance\<close> statement by statement, for calls that run
  concurrently: the call is at \<open>sharedInstanceOnce.Do\<close>, at \<open>RLock\<close>, at the load
  of the flag, at the deferred \<open>RUnlock\<close> with the value it is about to return
  or the panic it is about to raise, or it has finished with that outcome. A
  panic inside \<open>Do\<close> finishes the call at once, the lock not yet taken. No writer
  ever takes \<open>sharedInstanceLock\<close>, so \<open>RLock\<close> never waits.
\<close>

datatype shared_pc =
    AtDo
  | AtRLock
  | AtLoad
  | AtRUnlock "error + addr option"
  | Finished "error + addr option"

fun GetShared_step ::
  "('ca, 'cw, 'f) env \<Rightarrow> string list \<Rightarrow> shared_pc \<Rightarrow> world \<Rightarrow> (shared_pc \<times> world) option" where
  "GetShared_step E paths AtDo w =
     (case once_Do (shared_init E paths) w of
        (Inl e, w1) \<Rightarrow> Some (Finished (Inl e), w1)
      | (Inr u, w1) \<Rightarrow> Some (AtRLock, w1))"
| "GetShared_step E paths AtRLock w = Some (AtLoad, RLock w)"
| "GetShared_step E paths AtLoad w =
     (case LoadInt32_freed (sharedInstance w) w of
        Inl e \<Rightarrow> Some (AtRUnlock (Inl e), w)
      | Inr f \<Rightarrow>
          if f \<noteq> 0
          then Some (AtRUnlock (Inl (Panic ''Shared Jieba instance has been freed'')), w)
          else Some (AtRUnlock (Inr (sharedInstance w)), w))"
| "GetShared_step E paths (AtRUnlock r) w = Some (Finished r, RUnlock w)"
| "GetShared_step E paths (Finished r) w = None"

text \<open>One call running alone, for up to \<open>k\<close> steps.\<close>

fun GetShared_steps ::
  "nat \<Rightarrow> ('ca, 'cw, 'f) env \<Rightarrow> string list \<Rightarrow> shared_pc \<Rightarrow> world \<Rightarrow> shared_pc \<times> world" where
  "GetShared_steps 0 E paths pc w = (pc, w)"
| "GetShared_steps (Suc k) E paths pc w =
     (case GetShared_step E paths pc w of
        None \<Rightarrow> (pc, w)
      | Some (pc', w') \<Rightarrow> GetShared_steps k E paths pc' w')"

text \<open>Calls running concurrently, each with its own arguments: a step of the
  system is one step of one call.\<close>

inductive Shared_interleave ::
  "('ca, 'cw, 'f) env \<Rightarrow> (string list \<times> shared_pc) list \<times> world
     \<Rightarrow> (string list \<times> shared_pc) list \<times> world \<Rightarrow> bool"
  for E :: "('ca, 'cw, 'f) env" where
  step: "i < length ts \<Longrightarrow> ts ! i = (paths, pc) \<Longrightarrow> GetShared_step E paths pc w = Some (pc', w')
           \<Longrightarrow> Shared_interleave E (ts, w) (ts[i := (paths, pc')], w')"

text \<open>The calls that are between their \<open>RLock\<close> and their \<open>RUnlock\<close>.\<close>

fun holds_lock :: "shared_pc \<Rightarrow> bool" where
  "holds_lock AtLoad = True"
| "holds_lock (AtRUnlock r) = True"
| "holds_lock pc = False"

definition readers :: "(string list \<times> shared_pc) list \<Rightarrow> nat" where
  "readers ts = length (filter (\<lambda>t. holds_lock (snd t)) ts)"

text \<open>What a call returns once the shared instance has been constructed and
  its struct is \<open>j\<close>.\<close>

definition shared_outcome :: "world \<Rightarrow> Jieba \<Rightarrow> error + addr option" where
  "shared_outcome w j =
     (if freed j \<noteq> 0 then Inl (Panic ''Shared Jieba instance has been freed'')
      else Inr (sharedInstance w))"

text \<open>
  What holds of concurrent calls and of the world at every moment, when the
  shared instance had been constructed in the world \<open>w0\<close> before them: the world
  differs from \<open>w0\<close> only in the reader count, which has grown by the number of
  calls between their \<open>RLock\<close> and their \<open>RUnlock\<close>, and every outcome
  computed so far is the one the flag commands.
\<close>

definition Shared_inv :: "world \<Rightarrow> Jieba \<Rightarrow> (string list \<times> shared_pc) list \<Rightarrow> world \<Rightarrow> bool" where
  "Shared_inv w0 j ts v =
     (v = w0\<lparr>sharedInstanceLock := sharedInstanceLock w0 + readers ts\<rparr>
      \<and> (\<forall>i<length ts. \<forall>q. snd (ts ! i) = AtRUnlock q \<or> snd (ts ! i) = Finished q
              \<longrightarrow> q = shared_outcome w0 j))"

section \<open>Queries and dictionary updates\<close>

text \<open>
  Go's \<open>int\<close> is a 64-bit word on the 64-bit targets and \<open>C.int(...)\<close> keeps its
  low 32 bits. In each
  function the deferred calls run when it returns or panics, last deferred first;
  \<open>x.jieba\<close> on a nil handle panics at the point where the argument is read.
\<close>

definition c_int_hmm :: "bool \<Rightarrow> 64 word" where
  "c_int_hmm hmm = (if hmm then 1 else 0)"

definition Cut ::
  "('ca, 'cw, 'f) env \<Rightarrow> addr option \<Rightarrow> string \<Rightarrow> bool \<Rightarrow> world \<Rightarrow> (error + string list) \<times> world" where
  "Cut E x s hmm w =
     (case checkFreed x w of
        Inl e \<Rightarrow> (Inl e, w)
      | Inr _ \<Rightarrow>
          let w1 = emit (C_CString s) w in
          (case deref x w1 of
             None \<Rightarrow> (Inl NilDeref, emit (C_free s) w1)
           | Some j \<Rightarrow>
               let w2 = emit (C_Cut (jieba j) s (ucast (c_int_hmm hmm))) w1;
                   words = ret_chars E (trace w2)
               in (cstrings E words, emits [C_FreeWords, C_free s] w2)))"

definition CutAll ::
  "('ca, 'cw, 'f) env \<Rightarrow> addr option \<Rightarrow> string \<Rightarrow> world \<Rightarrow> (error + string list) \<times> world" where
  "CutAll E x s w =
     (case checkFreed x w of
        Inl e \<Rightarrow> (Inl e, w)
      | Inr _ \<Rightarrow>
          let w1 = emit (C_CString s) w in
          (case deref x w1 of
             None \<Rightarrow> (Inl NilDeref, emit (C_free s) w1)
           | Some j \<Rightarrow>
               let w2 = emit (C_CutAll (jieba j) s) w1;
                   words = ret_chars E (trace w2)
               in (cstrings E words, emits [C_FreeWords, C_free s] w2)))"

definition CutForSearch ::
  "('ca, 'cw, 'f) env \<Rightarrow> addr option \<Rightarrow> string \<Rightarrow> bool \<Rightarrow> world \<Rightarrow> (error + string list) \<times> world" where
  "CutForSearch E x s hmm w =
     (case checkFreed x w of
        Inl e \<Rightarrow> (Inl e, w)
      | Inr _ \<Rightarrow>
          let w1 = emit (C_CString s) w in
          (case deref x w1 of
             None \<Rightarrow> (Inl NilDeref, emit (C_free s) w1)
           | Some j \<Rightarrow>
               let w2 = emit (C_CutForSearch (jieba j) s (ucast (c_int_hmm hmm))) w1;
                   words = ret_chars E (trace w2)
               in (cstrings E words, emits [C_FreeWords, C_free s] w2)))"

definition Tag ::
  "('ca, 'cw, 'f) env \<Rightarrow> addr option \<Rightarrow> string \<Rightarrow> world \<Rightarrow> (error + string list) \<times> world" where
  "Tag E x s w =
     (case checkFreed x w of
        Inl e \<Rightarrow> (Inl e, w)
      | Inr _ \<Rightarrow>
          let w1 = emit (C_CString s) w in
          (case deref x w1 of
             None \<Rightarrow> (Inl NilDeref, emit (C_free s) w1)
           | Some j \<Rightarrow>
               let w2 = emit (C_Tag (jieba j) s) w1;
                   words = ret_chars E (trace w2)
               in (cstrings E words, emits [C_FreeWords, C_free s] w2)))"

definition AddWord ::
  "('ca, 'cw, 'f) env \<Rightarrow> addr option \<Rightarrow> string \<Rightarrow> world \<Rightarrow> (error + unit) \<times> world" where
  "AddWord E x s w =
     (let w1 = emit (C_CString s) w in
      case deref x w1 of
        None \<Rightarrow> (Inl NilDeref, emit (C_free s) w1)
      | Some j \<Rightarrow> (Inr (), emits [C_AddWord (jieba j) s, C_free s] w1))"

definition AddWordEx ::
  "('ca, 'cw, 'f) env \<Rightarrow> addr option \<Rightarrow> string \<Rightarrow> 64 word \<Rightarrow> string \<Rightarrow> world
     \<Rightarrow> (error + unit) \<times> world" where
  "AddWordEx E x s freq tag w =
     (let w1 = emits [C_CString s, C_CString tag] w in
      case deref x w1 of
        None \<Rightarrow> (Inl NilDeref, emits [C_free s, C_free tag] w1)
      | Some j \<Rightarrow>
          (Inr (), emits [C_AddWordEx (jieba j) s (ucast freq) tag, C_free s, C_free tag] w1))"

definition RemoveWord ::
  "('ca, 'cw, 'f) env \<Rightarrow> addr option \<Rightarrow> string \<Rightarrow> world \<Rightarrow> (error + unit) \<times> world" where
  "RemoveWord E x s w =
     (let w1 = emit (C_CString s) w in
      case deref x w1 of
        None \<Rightarrow> (Inl NilDeref, emit (C_free s) w1)
      | Some j \<Rightarrow> (Inr (), emits [C_RemoveWord (jieba j) s, C_free s] w1))"

text \<open>\<open>mode\<close> is a \<open>TokenizeMode\<close>, that is a Go \<open>int\<close>; \<open>DefaultMode\<close> is 0 and
  \<open>SearchMode\<close> is 1.\<close>

definition DefaultMode :: "64 word" where
  "DefaultMode = 0"

definition SearchMode :: "64 word" where
  "SearchMode = 1"

definition Tokenize ::
  "('ca, 'cw, 'f) env \<Rightarrow> addr option \<Rightarrow> string \<Rightarrow> 64 word \<Rightarrow> bool \<Rightarrow> world
     \<Rightarrow> (error + Word list) \<times> world" where
  "Tokenize E x s mode hmm w =
     (let w1 = emit (C_CString s) w in
      case deref x w1 of
        None \<Rightarrow> (Inl NilDeref, emit (C_free s) w1)
      | Some j \<Rightarrow>
          let w2 = emit (C_Tokenize (jieba j) s (ucast mode) (ucast (c_int_hmm hmm))) w1;
              words = ret_Words E (trace w2)
          in (convertWords E s words, emits [C_free_Words, C_free s] w2))"

text \<open>In \<open>Extract\<close> and \<open>ExtractWithWeight\<close> the native array is converted before
  its release is deferred, so a conversion that panics leaves it unreleased.\<close>

definition Extract ::
  "('ca, 'cw, 'f) env \<Rightarrow> addr option \<Rightarrow> string \<Rightarrow> 64 word \<Rightarrow> world
     \<Rightarrow> (error + string list) \<times> world" where
  "Extract E x s topk w =
     (let w1 = emit (C_CString s) w in
      case deref x w1 of
        None \<Rightarrow> (Inl NilDeref, emit (C_free s) w1)
      | Some j \<Rightarrow>
          let w2 = emit (C_Extract (jieba j) s (ucast topk)) w1;
              words = ret_chars E (trace w2)
          in (case cstrings E words of
                Inl e \<Rightarrow> (Inl e, emit (C_free s) w2)
              | Inr res \<Rightarrow> (Inr res, emits [C_FreeWords, C_free s] w2)))"

definition ExtractWithWeight ::
  "('ca, 'cw, 'f) env \<Rightarrow> addr option \<Rightarrow> string \<Rightarrow> 64 word \<Rightarrow> world
     \<Rightarrow> (error + 'f WordWeight list) \<times> world" where
  "ExtractWithWeight E x s topk w =
     (let w1 = emit (C_CString s) w in
      case deref x w1 of
        None \<Rightarrow> (Inl NilDeref, emit (C_free s) w1)
      | Some j \<Rightarrow>
          let w2 = emit (C_ExtractWithWeight (jieba j) s (ucast topk)) w1;
              words = ret_WordWeights E (trace w2)
          in (case cwordweights words of
                Inl e \<Rightarrow> (Inl e, emit (C_free s) w2)
              | Inr res \<Rightarrow> (Inr res, emits [C_FreeWordWeights, C_free s] w2)))"

section \<open>Concurrent calls of Free\<close>

text \<open>
  \<open>Free\<close> is meant to be called from several goroutines and from the finalizer.
  A call is at one of its statements: the compare-and-swap, the native release,
  the clearing of \<open>x.jieba\<close>, the removal of the finalizer, or it has returned (or
  panicked on a nil handle). A step of the system is one statement of one call;
  the compare-and-swap is a single step, as \<open>sync/atomic\<close> guarantees.
\<close>

datatype free_pc = AtCAS | AtRelease | AtClear | AtUnhook | Returned | Crashed error

fun Free_step :: "addr option \<Rightarrow> free_pc \<Rightarrow> world \<Rightarrow> (free_pc \<times> world) option" where
  "Free_step x AtCAS w =
     (case CompareAndSwapInt32_freed x 0 1 w of
        (Inl e, w') \<Rightarrow> Some (Crashed e, w')
      | (Inr True, w') \<Rightarrow> Some (AtRelease, w')
      | (Inr False, w') \<Rightarrow> Some (Returned, w'))"
| "Free_step (Some a) AtRelease w = Some (AtClear, Free_release a w)"
| "Free_step (Some a) AtClear w = Some (AtUnhook, Free_clear a w)"
| "Free_step (Some a) AtUnhook w = Some (Returned, Free_unhook a w)"
| "Free_step x pc w = None"

inductive Free_interleave ::
  "addr option \<Rightarrow> free_pc list \<times> world \<Rightarrow> free_pc list \<times> world \<Rightarrow> bool"
  for x :: "addr option" where
  step: "i < length pcs \<Longrightarrow> Free_step x (pcs ! i) w = Some (pc', w')
           \<Longrightarrow> Free_interleave x (pcs, w) (pcs[i := pc'], w')"

text \<open>
  One call running alone: \<open>Free_steps k\<close> takes up to \<open>k\<close> steps of the call and
  stops where it can take no more.
\<close>

fun Free_steps :: "nat \<Rightarrow> addr option \<Rightarrow> free_pc \<Rightarrow> world \<Rightarrow> free_pc \<times> world" where
  "Free_steps 0 x pc w = (pc, w)"
| "Free_steps (Suc k) x pc w =
     (case Free_step x pc w of
        None \<Rightarrow> (pc, w)
      | Some (pc', w') \<Rightarrow> Free_steps k x pc' w')"

text \<open>The number of statements a call still has before it, at most, and the
  same for all calls together.\<close>

fun remaining :: "free_pc \<Rightarrow> nat" where
  "remaining AtCAS = 4"
| "remaining AtRelease = 3"
| "remaining AtClear = 2"
| "remaining AtUnhook = 1"
| "remaining Returned = 0"
| "remaining (Crashed e) = 0"

definition work :: "free_pc list \<Rightarrow> nat" where
  "work pcs = sum_list (map remaining pcs)"

text \<open>
  What holds of the calls of \<open>Free\<close> on the handle at address \<open>a\<close> and of the
  world at every moment, when the handle held the native reference \<open>r\<close> and the
  trace was \<open>t0\<close> before the first of the \<open>n\<close> calls: either the flag is still
  unset and no call is past its compare-and-swap, or exactly one call has won it
  and is about to release, or the release has been made.
\<close>

definition Free_inv ::
  "addr \<Rightarrow> C_Jieba \<Rightarrow> ncall list \<Rightarrow> nat \<Rightarrow> free_pc list \<Rightarrow> world \<Rightarrow> bool" where
  "Free_inv a r t0 n pcs w =
     (length pcs = n \<and> a < length (heap w) \<and>
      (if freed (heap w ! a) = 0
       then (\<forall>k<n. pcs ! k = AtCAS) \<and> trace w = t0 \<and> jieba (heap w ! a) = r
       else ((\<exists>i<n. pcs ! i = AtRelease \<and>
                (\<forall>k<n. k \<noteq> i \<longrightarrow> pcs ! k = AtCAS \<or> pcs ! k = Returned))
             \<and> trace w = t0 \<and> jieba (heap w ! a) = r)
          \<or> ((\<forall>k<n. pcs ! k = AtCAS \<or> pcs ! k = AtClear \<or> pcs ! k = AtUnhook
                      \<or> pcs ! k = Returned)
             \<and> trace w = t0 @ [C_FreeJieba r])))"

text \<open>The number of native release calls in a trace.\<close>

fun is_FreeJieba :: "ncall \<Rightarrow> bool" where
  "is_FreeJieba (C_FreeJieba r) = True"
| "is_FreeJieba c = False"

definition releases :: "world \<Rightarrow> nat" where
  "releases w = length (filter is_FreeJieba (trace w))"

section \<open>A process using the package\<close>

text \<open>
  What the rest of the process can do with the package, one call after the
  other, a call that panics being recovered by its caller; the file system may
  change between two calls.
\<close>

datatype action =
    A_NewJieba "string list"
  | A_GetSharedInstance "string list"
  | A_Free "addr option"
  | A_Cut "addr option" string bool
  | A_CutAll "addr option" string
  | A_CutForSearch "addr option" string bool
  | A_Tag "addr option" string
  | A_AddWord "addr option" string
  | A_AddWordEx "addr option" string "64 word" string
  | A_RemoveWord "addr option" string
  | A_Tokenize "addr option" string "64 word" bool
  | A_Extract "addr option" string "64 word"
  | A_ExtractWithWeight "addr option" string "64 word"
  | A_files "string \<Rightarrow> stat_result"

fun perform :: "('ca, 'cw, 'f) env \<Rightarrow> action \<Rightarrow> world \<Rightarrow> world" where
  "perform E (A_NewJieba ps) w = snd (NewJieba E ps w)"
| "perform E (A_GetSharedInstance ps) w = snd (GetSharedInstance E ps w)"
| "perform E (A_Free x) w = snd (Free x w)"
| "perform E (A_Cut x s hmm) w = snd (Cut E x s hmm w)"
| "perform E (A_CutAll x s) w = snd (CutAll E x s w)"
| "perform E (A_CutForSearch x s hmm) w = snd (CutForSearch E x s hmm w)"
| "perform E (A_Tag x s) w = snd (Tag E x s w)"
| "perform E (A_AddWord x s) w = snd (AddWord E x s w)"
| "perform E (A_AddWordEx x s freq tag) w = snd (AddWordEx E x s freq tag w)"
| "perform E (A_RemoveWord x s) w = snd (RemoveWord E x s w)"
| "perform E (A_Tokenize x s mode hmm) w = snd (Tokenize E x s mode hmm w)"
| "perform E (A_Extract x s topk) w = snd (Extract E x s topk w)"
| "perform E (A_ExtractWithWeight x s topk) w = snd (ExtractWithWeight E x s topk w)"
| "perform E (A_files f) w = w\<lparr>fs := f\<rparr>"

fun run :: "('ca, 'cw, 'f) env \<Rightarrow> action list \<Rightarrow> world \<Rightarrow> world" where
  "run E [] w = w"
| "run E (a # as) w = run E as (perform E a w)"

text \<open>For every call of \<open>GetSharedInstance\<close> in a run: what it returned and the
  native calls it made.\<close>

fun is_NewJieba :: "ncall \<Rightarrow> bool" where
  "is_NewJieba (C_NewJieba d h u i s) = True"
| "is_NewJieba c = False"



section \<open>An instance of the parameters\<close>

text \<open>
  A small environment on which the model can be evaluated: the five default
  dictionary paths unless five are given, native string arrays that end at the
  first null, token records that carry their offsets, and an engine that
  answers every query with an empty array.
\<close>

definition example_dicts :: "string list" where
  "example_dicts = [''dict/jieba.dict.utf8'', ''dict/hmm_model.utf8'', ''dict/user.dict.utf8'',
                    ''dict/idf.utf8'', ''dict/stop_words.utf8'']"

definition example_env :: "(string option list, Word list, int) env" where
  "example_env =
     \<lparr>getDictPaths = (\<lambda>ps. Inr (if length ps = 5 then ps else example_dicts)),
      cstrings = (\<lambda>ws. Inr (map the (takeWhile (\<lambda>c. c \<noteq> None) ws))),
      convertWords = (\<lambda>s ws. Inr ws),
      ret_NewJieba = (\<lambda>t. Some (length t)),
      ret_chars = (\<lambda>t. [None]),
      ret_Words = (\<lambda>t. []),
      ret_WordWeights = (\<lambda>t. [\<lparr>word = None, weight = 0\<rparr>])\<rparr>"

text \<open>The process before its first call, with the five default dictionaries in
  place, and the same with no file at all.\<close>

definition boot :: "(string \<Rightarrow> stat_result) \<Rightarrow> world" where
  "boot f = \<lparr>heap = [], finalizers = {}, sharedInstance = None, sharedInstanceOnce = False,
             sharedInstanceLock = 0, fs = f, trace = []\<rparr>"

definition dicts_present :: "string \<Rightarrow> stat_result" where
  "dicts_present p = (if p \<in> set example_dicts then StatOk else ErrNotExist)"

definition no_files :: "string \<Rightarrow> stat_result" where
  "no_files p = ErrNotExist"



text \<open>The native calls of \<open>NewJieba\<close> on the default dictionaries, the world
  after that call in a fresh process, and the world after \<open>Free\<close> on the handle
  it returned.\<close>

definition boot_calls :: "ncall list" where
  "boot_calls =
     [C_CString ''dict/jieba.dict.utf8'', C_CString ''dict/hmm_model.utf8'',
      C_CString ''dict/user.dict.utf8'', C_CString ''dict/idf.utf8'',
      C_CString ''dict/stop_words.utf8'',
      C_NewJieba ''dict/jieba.dict.utf8'' ''dict/hmm_model.utf8'' ''dict/user.dict.utf8''
        ''dict/idf.utf8'' ''dict/stop_words.utf8'',
      C_free ''dict/stop_words.utf8'', C_free ''dict/idf.utf8'', C_free ''dict/user.dict.utf8'',
      C_free ''dict/hmm_model.utf8'', C_free ''dict/jieba.dict.utf8'']"

definition fresh_handle :: world where
  "fresh_handle =
     \<lparr>heap = [\<lparr>jieba = Some 6, freed = 0\<rparr>], finalizers = {0}, sharedInstance = None,
      sharedInstanceOnce = False, sharedInstanceLock = 0, fs = dicts_present,
      trace = boot_calls\<rparr>"

definition freed_handle :: world where
  "freed_handle =
     \<lparr>heap = [\<lparr>jieba = None, freed = 1\<rparr>], finalizers = {}, sharedInstance = None,
      sharedInstanceOnce = False, sharedInstanceLock = 0, fs = dicts_present,
      trace = boot_calls @ [C_FreeJieba (Some 6)]\<rparr>"

section \<open>Lemmas\<close>

subsection \<open>The world\<close>

lemmas world_defs = emit_def emits_def store_def SetFinalizer_def RLock_def RUnlock_def

lemma deref_heap: "heap w' = heap w \<Longrightarrow> deref x w' = deref x w"
  by (cases x) (simp_all add: deref_def)

lemma deref_emit [simp]: "deref x (emit c w) = deref x w"
  by (rule deref_heap) (simp add: emit_def)

lemma deref_emits [simp]: "deref x (emits cs w) = deref x w"
  by (rule deref_heap) (simp add: emits_def)

lemma deref_Some: "deref x w = Some j \<Longrightarrow> \<exists>a. x = Some a \<and> a < length (heap w) \<and> heap w ! a = j"
  by (auto simp: deref_def split: option.splits if_splits)

lemma emit_emits: "emit c w = emits [c] w"
  by (simp add: emits_def emit_def)

lemma emits_emits: "emits cs (emits ds w) = emits (ds @ cs) w"
  by (simp add: emits_def)

lemma RUnlock_RLock [simp]: "RUnlock (RLock w) = w"
  by (simp add: RUnlock_def RLock_def)

subsection \<open>Queries and dictionary updates only extend the trace\<close>

lemma emits_self: "\<exists>cs. w = emits cs w"
  by (rule exI [of _ "[]"]) (simp add: emits_def)

lemma emits_ex: "\<exists>cs. emits ds w = emits cs w"
  by (rule exI [of _ ds]) simp

lemmas query_simps = emit_emits emits_emits Let_def emits_self emits_ex

lemma Cut_emits: "\<exists>cs. snd (Cut E x s hmm w) = emits cs w"
  by (simp add: Cut_def query_simps split: sum.split option.split)

lemma CutAll_emits: "\<exists>cs. snd (CutAll E x s w) = emits cs w"
  by (simp add: CutAll_def query_simps split: sum.split option.split)

lemma CutForSearch_emits: "\<exists>cs. snd (CutForSearch E x s hmm w) = emits cs w"
  by (simp add: CutForSearch_def query_simps split: sum.split option.split)

lemma Tag_emits: "\<exists>cs. snd (Tag E x s w) = emits cs w"
  by (simp add: Tag_def query_simps split: sum.split option.split)

lemma AddWord_emits: "\<exists>cs. snd (AddWord E x s w) = emits cs w"
  by (simp add: AddWord_def query_simps split: sum.split option.split)

lemma AddWordEx_emits: "\<exists>cs. snd (AddWordEx E x s freq tag w) = emits cs w"
  by (simp add: AddWordEx_def query_simps split: sum.split option.split)

lemma RemoveWord_emits: "\<exists>cs. snd (RemoveWord E x s w) = emits cs w"
  by (simp add: RemoveWord_def query_simps split: sum.split option.split)

lemma Tokenize_emits: "\<exists>cs. snd (Tokenize E x s mode hmm w) = emits cs w"
  by (simp add: Tokenize_def query_simps split: sum.split option.split)

lemma Extract_emits: "\<exists>cs. snd (Extract E x s topk w) = emits cs w"
  by (simp add: Extract_def query_simps split: sum.split option.split)

lemma ExtractWithWeight_emits: "\<exists>cs. snd (ExtractWithWeight E x s topk w) = emits cs w"
  by (simp add: ExtractWithWeight_def query_simps split: sum.split option.split)


subsection \<open>Invariants of a run\<close>

lemma perform_preserves:
  assumes calls: "\<And>cs w. P w \<Longrightarrow> P (emits cs w)"
    and new: "\<And>ps w. P w \<Longrightarrow> P (snd (NewJieba E ps w))"
    and free: "\<And>x w. P w \<Longrightarrow> P (snd (Free x w))"
    and shared: "\<And>ps w. P w \<Longrightarrow> P (snd (GetSharedInstance E ps w))"
    and files: "\<And>f w. P w \<Longrightarrow> P (w\<lparr>fs := f\<rparr>)"
    and start: "P w"
  shows "P (perform E a w)"
proof (cases a)
  case (A_Cut x s hmm)
  obtain cs where "snd (Cut E x s hmm w) = emits cs w" using Cut_emits by blast
  with A_Cut calls [OF start] show ?thesis by simp
next
  case (A_CutAll x s)
  obtain cs where "snd (CutAll E x s w) = emits cs w" using CutAll_emits by blast
  with A_CutAll calls [OF start] show ?thesis by simp
next
  case (A_CutForSearch x s hmm)
  obtain cs where "snd (CutForSearch E x s hmm w) = emits cs w"
    using CutForSearch_emits by blast
  with A_CutForSearch calls [OF start] show ?thesis by simp
next
  case (A_Tag x s)
  obtain cs where "snd (Tag E x s w) = emits cs w" using Tag_emits by blast
  with A_Tag calls [OF start] show ?thesis by simp
next
  case (A_AddWord x s)
  obtain cs where "snd (AddWord E x s w) = emits cs w" using AddWord_emits by blast
  with A_AddWord calls [OF start] show ?thesis by simp
next
  case (A_AddWordEx x s freq tag)
  obtain cs where "snd (AddWordEx E x s freq tag w) = emits cs w"
    using AddWordEx_emits by blast
  with A_AddWordEx calls [OF start] show ?thesis by simp
next
  case (A_RemoveWord x s)
  obtain cs where "snd (RemoveWord E x s w) = emits cs w" using RemoveWord_emits by blast
  with A_RemoveWord calls [OF start] show ?thesis by simp
next
  case (A_Tokenize x s mode hmm)
  obtain cs where "snd (Tokenize E x s mode hmm w) = emits cs w"
    using Tokenize_emits by blast
  with A_Tokenize calls [OF start] show ?thesis by simp
next
  case (A_Extract x s topk)
  obtain cs where "snd (Extract E x s topk w) = emits cs w" using Extract_emits by blast
  with A_Extract calls [OF start] show ?thesis by simp
next
  case (A_ExtractWithWeight x s topk)
  obtain cs where "snd (ExtractWithWeight E x s topk w) = emits cs w"
    using ExtractWithWeight_emits by blast
  with A_ExtractWithWeight calls [OF start] show ?thesis by simp
qed (simp_all add: new free shared files start)

lemma run_preserves:
  assumes calls: "\<And>cs w. P w \<Longrightarrow> P (emits cs w)"
    and new: "\<And>ps w. P w \<Longrightarrow> P (snd (NewJieba E ps w))"
    and free: "\<And>x w. P w \<Longrightarrow> P (snd (Free x w))"
    and shared: "\<And>ps w. P w \<Longrightarrow> P (snd (GetSharedInstance E ps w))"
    and files: "\<And>f w. P w \<Longrightarrow> P (w\<lparr>fs := f\<rparr>)"
    and start: "P w"
  shows "P (run E acts w)"
  using start
proof (induction acts arbitrary: w)
  case Nil
  then show ?case by simp
next
  case (Cons a acts)
  have "P (perform E a w)"
    using calls new free shared files Cons.prems by (rule perform_preserves)
  then show ?case using Cons.IH by simp
qed

subsection \<open>What Free and NewJieba do to the world\<close>

lemma Free_noop:
  "deref x w = Some j \<Longrightarrow> freed j \<noteq> 0 \<Longrightarrow> Free x w = (Inr (), w)"
  by (cases x) (simp_all add: Free_def CompareAndSwapInt32_freed_def deref_def)

lemma Jieba_fields: "(j :: Jieba)\<lparr>freed := f, jieba := r\<rparr> = \<lparr>jieba = r, freed = f\<rparr>"
  by (cases j) simp

lemma Free_first:
  assumes "a < length (heap w)" and "freed (heap w ! a) = 0"
  shows "Free (Some a) w =
     (Inr (), w\<lparr>heap := (heap w)[a := \<lparr>jieba = None, freed = 1\<rparr>],
               finalizers := finalizers w - {a},
               trace := trace w @ [C_FreeJieba (jieba (heap w ! a))]\<rparr>)"
  using assms
  by (simp add: Free_def CompareAndSwapInt32_freed_def deref_def Free_release_def
      Free_clear_def Free_unhook_def world_defs Jieba_fields)

lemma Free_nil: "deref x w = None \<Longrightarrow> Free x w = (Inl NilDeref, w)"
  by (cases x) (simp_all add: Free_def CompareAndSwapInt32_freed_def)

lemma Free_frame:
  "sharedInstance (snd (Free x w)) = sharedInstance w
   \<and> sharedInstanceOnce (snd (Free x w)) = sharedInstanceOnce w
   \<and> sharedInstanceLock (snd (Free x w)) = sharedInstanceLock w
   \<and> fs (snd (Free x w)) = fs w
   \<and> length (heap (snd (Free x w))) = length (heap w)"
proof (cases "deref x w")
  case None
  then show ?thesis by (simp add: Free_nil)
next
  case (Some j)
  then obtain a where a: "x = Some a" "a < length (heap w)" "heap w ! a = j"
    using deref_Some by blast
  show ?thesis
  proof (cases "freed j = 0")
    case True
    with a show ?thesis by (simp add: Free_first)
  next
    case False
    with Some show ?thesis by (simp add: Free_noop)
  qed
qed

lemma Free_keeps_freed:
  assumes "b < length (heap w)" and "freed (heap w ! b) \<noteq> 0"
  shows "b < length (heap (snd (Free x w))) \<and> freed (heap (snd (Free x w)) ! b) \<noteq> 0"
proof (cases "deref x w")
  case None
  with assms show ?thesis by (simp add: Free_nil)
next
  case (Some j)
  then obtain a where a: "x = Some a" "a < length (heap w)" "heap w ! a = j"
    using deref_Some by blast
  show ?thesis
  proof (cases "freed j = 0")
    case True
    with a assms show ?thesis by (simp add: Free_first nth_list_update)
  next
    case False
    with Some assms show ?thesis by (simp add: Free_noop)
  qed
qed


lemma NewJieba_panics:
  "fst (NewJieba E ps w) = Inl e \<Longrightarrow>
     \<exists>cs. snd (NewJieba E ps w) = emits cs w \<and> filter is_NewJieba cs = []"
proof (cases "getDictPaths E ps")
  case (Inl e')
  then have "snd (NewJieba E ps w) = emits [] w" by (simp add: NewJieba_def emits_def)
  then show ?thesis by (intro exI [of _ "[]"]) simp
next
  case (Inr dps)
  assume p: "fst (NewJieba E ps w) = Inl e"
  show ?thesis
  proof (cases "check_dict_files (fs w) dps")
    case (Inl e')
    with Inr have "snd (NewJieba E ps w) = emits [] w" by (simp add: NewJieba_def emits_def)
    then show ?thesis by (intro exI [of _ "[]"]) simp
  next
    case ok: (Inr u)
    with Inr p have short: "length dps < 5"
      by (simp add: NewJieba_def Let_def split: if_splits)
    with Inr ok have "snd (NewJieba E ps w) = emits (map C_CString dps) w"
      by (simp add: NewJieba_def)
    moreover have "filter is_NewJieba (map C_CString dps) = []"
      by (induction dps) simp_all
    ultimately show ?thesis by blast
  qed
qed

lemma NewJieba_returns:
  assumes "fst (NewJieba E ps w) = Inr a"
  shows "\<exists>r cs. a = length (heap w)
           \<and> snd (NewJieba E ps w) =
               w\<lparr>heap := heap w @ [\<lparr>jieba = r, freed = 0\<rparr>],
                 finalizers := insert a (finalizers w),
                 trace := trace w @ cs\<rparr>
           \<and> length (filter is_NewJieba cs) = 1"
proof (cases "getDictPaths E ps")
  case (Inl e)
  with assms show ?thesis by (simp add: NewJieba_def)
next
  case (Inr dps)
  show ?thesis
  proof (cases "check_dict_files (fs w) dps")
    case (Inl e)
    with Inr assms show ?thesis by (simp add: NewJieba_def)
  next
    case ok: (Inr u)
    with Inr assms have long: "\<not> length dps < 5"
      by (simp add: NewJieba_def Let_def split: if_splits)
    let ?cs = "[C_CString (dps ! 0), C_CString (dps ! 1), C_CString (dps ! 2),
                C_CString (dps ! 3), C_CString (dps ! 4),
                C_NewJieba (dps ! 0) (dps ! 1) (dps ! 2) (dps ! 3) (dps ! 4),
                C_free (dps ! 4), C_free (dps ! 3), C_free (dps ! 2),
                C_free (dps ! 1), C_free (dps ! 0)]"
    let ?r = "ret_NewJieba E (trace w @ take 6 ?cs)"
    from Inr ok long assms have "a = length (heap w)"
      by (simp add: NewJieba_def Let_def world_defs)
    moreover from Inr ok long have "snd (NewJieba E ps w) =
               w\<lparr>heap := heap w @ [\<lparr>jieba = ?r, freed = 0\<rparr>],
                 finalizers := insert (length (heap w)) (finalizers w),
                 trace := trace w @ ?cs\<rparr>"
      by (simp add: NewJieba_def Let_def world_defs)
    moreover have "length (filter is_NewJieba ?cs) = 1" by simp
    ultimately show ?thesis by blast
  qed
qed

lemma NewJieba_frame:
  "sharedInstance (snd (NewJieba E ps w)) = sharedInstance w
   \<and> sharedInstanceOnce (snd (NewJieba E ps w)) = sharedInstanceOnce w
   \<and> sharedInstanceLock (snd (NewJieba E ps w)) = sharedInstanceLock w
   \<and> fs (snd (NewJieba E ps w)) = fs w"
proof (cases "fst (NewJieba E ps w)")
  case (Inl e)
  then obtain cs where "snd (NewJieba E ps w) = emits cs w"
    using NewJieba_panics by blast
  then show ?thesis by (simp add: emits_def)
next
  case (Inr a)
  then obtain r cs where "snd (NewJieba E ps w) =
               w\<lparr>heap := heap w @ [\<lparr>jieba = r, freed = 0\<rparr>],
                 finalizers := insert a (finalizers w),
                 trace := trace w @ cs\<rparr>"
    using NewJieba_returns by blast
  then show ?thesis by simp
qed

lemma NewJieba_keeps_heap:
  assumes "b < length (heap w)"
  shows "b < length (heap (snd (NewJieba E ps w))) \<and> heap (snd (NewJieba E ps w)) ! b = heap w ! b"
proof (cases "fst (NewJieba E ps w)")
  case (Inl e)
  then obtain cs where "snd (NewJieba E ps w) = emits cs w"
    using NewJieba_panics by blast
  with assms show ?thesis by (simp add: emits_def)
next
  case (Inr a)
  then obtain r cs where "snd (NewJieba E ps w) =
               w\<lparr>heap := heap w @ [\<lparr>jieba = r, freed = 0\<rparr>],
                 finalizers := insert a (finalizers w),
                 trace := trace w @ cs\<rparr>"
    using NewJieba_returns by blast
  with assms show ?thesis by (simp add: nth_append)
qed

subsection \<open>What GetSharedInstance does to the world\<close>

lemma GetSharedInstance_constructed:
  assumes "sharedInstanceOnce w" and "deref (sharedInstance w) w = Some j"
  shows "GetSharedInstance E paths w =
           (if freed j \<noteq> 0 then Inl (Panic ''Shared Jieba instance has been freed'')
            else Inr (sharedInstance w), w)"
proof -
  have "deref (sharedInstance w) (RLock w) = Some j"
    using assms(2) deref_heap [of "RLock w" w] by (simp add: RLock_def)
  moreover have "sharedInstance (RLock w) = sharedInstance w"
    by (simp add: RLock_def)
  ultimately show ?thesis
    using assms(1) by (simp add: GetSharedInstance_def once_Do_def LoadInt32_freed_def Let_def)
qed

lemma GetSharedInstance_nil:
  assumes "sharedInstanceOnce w" and "deref (sharedInstance w) w = None"
  shows "GetSharedInstance E paths w = (Inl NilDeref, w)"
proof -
  have "deref (sharedInstance w) (RLock w) = None"
    using assms(2) deref_heap [of "RLock w" w] by (simp add: RLock_def)
  moreover have "sharedInstance (RLock w) = sharedInstance w"
    by (simp add: RLock_def)
  ultimately show ?thesis
    using assms(1) by (simp add: GetSharedInstance_def once_Do_def LoadInt32_freed_def Let_def)
qed

lemma GetSharedInstance_done:
  assumes "sharedInstanceOnce w"
  shows "snd (GetSharedInstance E paths w) = w
         \<and> (\<forall>q. fst (GetSharedInstance E paths w) = Inr q \<longrightarrow> q = sharedInstance w)"
proof (cases "deref (sharedInstance w) w")
  case None
  with assms show ?thesis by (simp add: GetSharedInstance_nil)
next
  case (Some j)
  with assms show ?thesis by (simp add: GetSharedInstance_constructed)
qed

lemma GetSharedInstance_first_panics:
  assumes "\<not> sharedInstanceOnce w" and "fst (NewJieba E paths w) = Inl e"
  shows "GetSharedInstance E paths w =
           (Inl e, (snd (NewJieba E paths w))\<lparr>sharedInstanceOnce := True\<rparr>)"
  using assms
  by (cases "NewJieba E paths w")
     (simp add: GetSharedInstance_def once_Do_def shared_init_def)

lemma GetSharedInstance_first_returns:
  assumes "\<not> sharedInstanceOnce w" and "fst (NewJieba E paths w) = Inr a"
  shows "GetSharedInstance E paths w =
           (Inr (Some a),
            (snd (NewJieba E paths w))
              \<lparr>sharedInstance := Some a,
               finalizers := finalizers (snd (NewJieba E paths w)) - {a},
               sharedInstanceOnce := True\<rparr>)"
proof -
  obtain r cs where a: "a = length (heap w)"
    and w': "snd (NewJieba E paths w) =
               w\<lparr>heap := heap w @ [\<lparr>jieba = r, freed = 0\<rparr>],
                 finalizers := insert a (finalizers w),
                 trace := trace w @ cs\<rparr>"
    using NewJieba_returns [OF assms(2)] by blast
  define v where "v = snd (NewJieba E paths w)"
  have N: "NewJieba E paths w = (Inr a, v)"
    using assms(2) by (cases "NewJieba E paths w") (simp add: v_def)
  have v: "v = w\<lparr>heap := heap w @ [\<lparr>jieba = r, freed = 0\<rparr>],
                 finalizers := insert a (finalizers w),
                 trace := trace w @ cs\<rparr>"
    using w' by (simp add: v_def)
  have "GetSharedInstance E paths w =
           (Inr (Some a), v\<lparr>sharedInstance := Some a, finalizers := finalizers v - {a},
               sharedInstanceOnce := True\<rparr>)"
    using assms(1) a
    by (simp add: GetSharedInstance_def N once_Do_def shared_init_def v LoadInt32_freed_def
          deref_def world_defs Let_def)
  then show ?thesis by (simp add: v_def)
qed






lemma GetSharedInstance_keeps_shared:
  "sharedInstanceOnce w \<Longrightarrow>
     sharedInstanceOnce (snd (GetSharedInstance E paths w))
     \<and> sharedInstance (snd (GetSharedInstance E paths w)) = sharedInstance w"
  by (simp add: GetSharedInstance_done)

lemma GetSharedInstance_keeps_heap:
  assumes "b < length (heap w)"
  shows "b < length (heap (snd (GetSharedInstance E paths w)))
         \<and> heap (snd (GetSharedInstance E paths w)) ! b = heap w ! b"
proof (cases "sharedInstanceOnce w")
  case True
  with assms show ?thesis by (simp add: GetSharedInstance_done)
next
  case False
  then show ?thesis
    using NewJieba_keeps_heap [OF assms, of E paths]
    by (cases "fst (NewJieba E paths w)")
       (simp_all add: GetSharedInstance_first_panics GetSharedInstance_first_returns)
qed

lemma run_keeps_shared:
  assumes "sharedInstanceOnce w"
  shows "sharedInstanceOnce (run E acts w) \<and> sharedInstance (run E acts w) = sharedInstance w"
proof (rule run_preserves [where P = "\<lambda>v::world. sharedInstanceOnce v \<and> sharedInstance v = sharedInstance w"])
  show "sharedInstanceOnce w \<and> sharedInstance w = sharedInstance w" using assms by simp
qed (simp_all add: emits_def NewJieba_frame Free_frame GetSharedInstance_done)


lemma run_keeps_freed:
  assumes "b < length (heap w)" and "freed (heap w ! b) \<noteq> 0"
  shows "b < length (heap (run E acts w)) \<and> freed (heap (run E acts w) ! b) \<noteq> 0"
proof (rule run_preserves [where P = "\<lambda>v::world. b < length (heap v) \<and> freed (heap v ! b) \<noteq> 0"])
  show "b < length (heap w) \<and> freed (heap w ! b) \<noteq> 0" using assms by simp
next
  fix ps and v :: world assume "b < length (heap v) \<and> freed (heap v ! b) \<noteq> 0"
  then show "b < length (heap (snd (NewJieba E ps v))) \<and> freed (heap (snd (NewJieba E ps v)) ! b) \<noteq> 0"
    using NewJieba_keeps_heap [of b v E ps] by simp
next
  fix ps and v :: world assume "b < length (heap v) \<and> freed (heap v ! b) \<noteq> 0"
  then show "b < length (heap (snd (GetSharedInstance E ps v)))
             \<and> freed (heap (snd (GetSharedInstance E ps v)) ! b) \<noteq> 0"
    using GetSharedInstance_keeps_heap [of b v E ps] by simp
next
  fix x and v :: world assume "b < length (heap v) \<and> freed (heap v ! b) \<noteq> 0"
  then show "b < length (heap (snd (Free x v))) \<and> freed (heap (snd (Free x v)) ! b) \<noteq> 0"
    using Free_keeps_freed [of b v x] by simp
qed (simp_all add: emits_def)






subsection \<open>The invariant of concurrent calls of Free\<close>

lemma Free_inv_unset:
  assumes "length pcs = n" and "a < length (heap w)" and "freed (heap w ! a) = 0"
    and "\<forall>k<n. pcs ! k = AtCAS" and "trace w = t0" and "jieba (heap w ! a) = r"
  shows "Free_inv a r t0 n pcs w"
  unfolding Free_inv_def using assms by simp

lemma Free_inv_won:
  assumes "length pcs = n" and "a < length (heap w)" and "freed (heap w ! a) \<noteq> 0"
    and "i < n" and "pcs ! i = AtRelease"
    and "\<forall>k<n. k \<noteq> i \<longrightarrow> pcs ! k = AtCAS \<or> pcs ! k = Returned"
    and "trace w = t0" and "jieba (heap w ! a) = r"
  shows "Free_inv a r t0 n pcs w"
proof -
  have "\<exists>i<n. pcs ! i = AtRelease \<and>
          (\<forall>k<n. k \<noteq> i \<longrightarrow> pcs ! k = AtCAS \<or> pcs ! k = Returned)"
    using assms(4,5,6) by (intro exI [of _ i]) simp
  then show ?thesis
    using assms(1,2,3,7,8) by (simp add: Free_inv_def)
qed

lemma Free_inv_released:
  assumes "length pcs = n" and "a < length (heap w)" and "freed (heap w ! a) \<noteq> 0"
    and "\<forall>k<n. pcs ! k = AtCAS \<or> pcs ! k = AtClear \<or> pcs ! k = AtUnhook \<or> pcs ! k = Returned"
    and "trace w = t0 @ [C_FreeJieba r]"
  shows "Free_inv a r t0 n pcs w"
  unfolding Free_inv_def using assms by simp

lemma Free_inv_cases:
  assumes "Free_inv a r t0 n pcs w"
  obtains
    (unset) "freed (heap w ! a) = 0" "\<forall>k<n. pcs ! k = AtCAS" "trace w = t0"
      "jieba (heap w ! a) = r"
  | (won) i where "freed (heap w ! a) \<noteq> 0" "i < n" "pcs ! i = AtRelease"
      "\<forall>k<n. k \<noteq> i \<longrightarrow> pcs ! k = AtCAS \<or> pcs ! k = Returned" "trace w = t0"
      "jieba (heap w ! a) = r"
  | (released) "freed (heap w ! a) \<noteq> 0"
      "\<forall>k<n. pcs ! k = AtCAS \<or> pcs ! k = AtClear \<or> pcs ! k = AtUnhook \<or> pcs ! k = Returned"
      "trace w = t0 @ [C_FreeJieba r]"
proof (cases "freed (heap w ! a) = 0")
  case True
  with assms show ?thesis by (intro unset) (simp_all add: Free_inv_def)
next
  case False
  with assms have "((\<exists>i<n. pcs ! i = AtRelease \<and>
                (\<forall>k<n. k \<noteq> i \<longrightarrow> pcs ! k = AtCAS \<or> pcs ! k = Returned))
             \<and> trace w = t0 \<and> jieba (heap w ! a) = r)
          \<or> ((\<forall>k<n. pcs ! k = AtCAS \<or> pcs ! k = AtClear \<or> pcs ! k = AtUnhook
                      \<or> pcs ! k = Returned)
             \<and> trace w = t0 @ [C_FreeJieba r])"
    by (simp add: Free_inv_def)
  then show ?thesis
  proof
    assume w: "(\<exists>i<n. pcs ! i = AtRelease \<and>
                (\<forall>k<n. k \<noteq> i \<longrightarrow> pcs ! k = AtCAS \<or> pcs ! k = Returned))
             \<and> trace w = t0 \<and> jieba (heap w ! a) = r"
    then obtain i where "i < n" "pcs ! i = AtRelease"
      "\<forall>k<n. k \<noteq> i \<longrightarrow> pcs ! k = AtCAS \<or> pcs ! k = Returned"
      by (elim conjE exE)
    with False w show ?thesis by (intro won [of i]) simp_all
  next
    assume "(\<forall>k<n. pcs ! k = AtCAS \<or> pcs ! k = AtClear \<or> pcs ! k = AtUnhook
                      \<or> pcs ! k = Returned)
             \<and> trace w = t0 @ [C_FreeJieba r]"
    with False show ?thesis by (intro released) simp_all
  qed
qed


lemma Free_inv_length: "Free_inv a r t0 n pcs w \<Longrightarrow> length pcs = n \<and> a < length (heap w)"
  by (simp add: Free_inv_def)

lemma update_others:
  assumes "\<forall>k<n. k \<noteq> j \<longrightarrow> P (pcs ! k)" and "P v" and "i \<noteq> j"
  shows "\<forall>k<n. k \<noteq> j \<longrightarrow> P (pcs[i := v] ! k)"
proof (intro allI impI)
  fix k assume "k < n" "k \<noteq> j"
  then show "P (pcs[i := v] ! k)"
    using assms by (cases "i < length pcs") (auto simp: nth_list_update list_update_beyond)
qed

lemma update_all:
  assumes "\<forall>k<n. P (pcs ! k)" and "P v"
  shows "\<forall>k<n. P (pcs[i := v] ! k)"
proof (intro allI impI)
  fix k assume "k < n"
  then show "P (pcs[i := v] ! k)"
    using assms by (cases "i < length pcs") (auto simp: nth_list_update list_update_beyond)
qed

lemma Free_inv_step:
  assumes inv: "Free_inv a r t0 n pcs w"
    and i: "i < length pcs"
    and st: "Free_step (Some a) (pcs ! i) w = Some (pc', w')"
  shows "Free_inv a r t0 n (pcs[i := pc']) w'"
proof -
  from inv have len: "length pcs = n" and a: "a < length (heap w)"
    by (simp_all add: Free_inv_length)
  from i len have i_n: "i < n" by simp
  have len': "length (pcs[i := pc']) = n" using len by simp
  let ?late = "\<lambda>pc. pc = AtCAS \<or> pc = AtClear \<or> pc = AtUnhook \<or> pc = Returned"
  let ?early = "\<lambda>pc. pc = AtCAS \<or> pc = Returned"
  from inv show ?thesis
  proof (cases rule: Free_inv_cases)
    case unset
    then have pc: "pcs ! i = AtCAS" using i_n by simp
    with st a unset(1) have pc': "pc' = AtRelease"
      and w': "w' = store a ((heap w ! a)\<lparr>freed := 1\<rparr>) w"
      by (simp_all add: CompareAndSwapInt32_freed_def deref_def)
    have others: "\<forall>k<n. k \<noteq> i \<longrightarrow> ?early (pcs[i := pc'] ! k)"
      using unset(2) by simp
    show ?thesis
    proof (rule Free_inv_won [where i = i])
      show "pcs[i := pc'] ! i = AtRelease" using i pc' by simp
      show "\<forall>k<n. k \<noteq> i \<longrightarrow> pcs[i := pc'] ! k = AtCAS \<or> pcs[i := pc'] ! k = Returned"
        using others .
      show "freed (heap w' ! a) \<noteq> 0" using a by (simp add: w' store_def)
      show "jieba (heap w' ! a) = r" using a unset(4) by (simp add: w' store_def)
      show "trace w' = t0" using unset(3) by (simp add: w' store_def)
      show "a < length (heap w')" using a by (simp add: w' store_def)
    qed (use len i_n in simp_all)
  next
    case (won j)
    show ?thesis
    proof (cases "i = j")
      case True
      with won(3) st have pc': "pc' = AtClear" and w': "w' = Free_release a w"
        by simp_all
      have "\<forall>k<n. k \<noteq> i \<longrightarrow> ?late (pcs ! k)" using won(4) True by blast
      then have "\<forall>k<n. k \<noteq> i \<longrightarrow> ?late (pcs[i := pc'] ! k)" by simp
      moreover have "?late (pcs[i := pc'] ! i)" using i pc' by simp
      ultimately have "\<forall>k<n. ?late (pcs[i := pc'] ! k)" by blast
      then show ?thesis
        using len' a won(1,5,6)
        by (intro Free_inv_released) (simp_all add: w' Free_release_def emit_def)
    next
      case False
      with won(4) i_n have "?early (pcs ! i)" by blast
      then have pc: "pcs ! i = AtCAS"
        using st by (cases "pcs ! i") auto
      with st a won(1) have pc': "pc' = Returned" and w': "w' = w"
        by (simp_all add: CompareAndSwapInt32_freed_def deref_def)
      have "\<forall>k<n. k \<noteq> j \<longrightarrow> ?early (pcs[i := pc'] ! k)"
        using won(4) False pc' by (intro update_others) simp_all
      moreover have "pcs[i := pc'] ! j = AtRelease" using won(3) False by simp
      ultimately show ?thesis
        using len' a won(1,2,5,6) by (intro Free_inv_won [where i = j]) (simp_all add: w')
    qed
  next
    case released
    from released(2) i_n have late: "?late (pcs ! i)" by blast
    have "?late pc' \<and> freed (heap w' ! a) \<noteq> 0 \<and> a < length (heap w') \<and> trace w' = trace w"
    proof (cases "pcs ! i")
      case AtCAS
      with st a released(1) have "pc' = Returned" and "w' = w"
        by (simp_all add: CompareAndSwapInt32_freed_def deref_def)
      with a released(1) show ?thesis by simp
    next
      case AtClear
      with st have "pc' = AtUnhook" and "w' = Free_clear a w" by simp_all
      with a released(1) show ?thesis by (simp add: Free_clear_def store_def)
    next
      case AtUnhook
      with st have "pc' = Returned" and "w' = Free_unhook a w" by simp_all
      with a released(1) show ?thesis by (simp add: Free_unhook_def SetFinalizer_def)
    next
      case Returned
      with st show ?thesis by simp
    qed (use late in simp_all)
    moreover from this have "\<forall>k<n. ?late (pcs[i := pc'] ! k)"
      using released(2) by (intro update_all) simp_all
    ultimately show ?thesis
      using len' released(3) by (intro Free_inv_released) simp_all
  qed
qed


lemma Free_inv_reachable:
  assumes "(Free_interleave (Some a))\<^sup>*\<^sup>* s s'" and "Free_inv a r t0 n (fst s) (snd s)"
  shows "Free_inv a r t0 n (fst s') (snd s')"
  using assms
proof (induction rule: rtranclp_induct)
  case base
  then show ?case .
next
  case (step y z)
  have y: "Free_inv a r t0 n (fst y) (snd y)" using step.IH step.prems by simp
  from step.hyps(2) show ?case
  proof cases
    case (step i pcs w pc' w')
    then show ?thesis
      using y Free_inv_step [of a r t0 n pcs w i pc' w'] by simp
  qed
qed

lemma Free_inv_final:
  assumes "Free_inv a r t0 n pcs w" and "0 < n" and "\<forall>pc\<in>set pcs. pc = Returned"
  shows "trace w = t0 @ [C_FreeJieba r]"
proof -
  from assms(1) have len: "length pcs = n" by (simp add: Free_inv_length)
  have ret: "pcs ! k = Returned" if "k < n" for k
    using assms(3) that len by simp
  from assms(1) show ?thesis
  proof (cases rule: Free_inv_cases)
    case unset
    then have "pcs ! 0 = AtCAS" using assms(2) by simp
    then show ?thesis using ret [OF assms(2)] by simp
  next
    case (won i)
    then show ?thesis using ret [of i] by simp
  next
    case released
    then show ?thesis by simp
  qed
qed

lemma Free_losers_return:
  assumes "a < length (heap w)" and "freed (heap w ! a) \<noteq> 0"
  shows "(Free_interleave (Some a))\<^sup>*\<^sup>* (pre @ replicate m AtCAS, w) (pre @ replicate m Returned, w)"
proof (induction m arbitrary: pre)
  case 0
  show ?case by simp
next
  case (Suc m)
  let ?pcs = "pre @ replicate (Suc m) AtCAS"
  have "Free_step (Some a) (?pcs ! length pre) w = Some (Returned, w)"
    using assms by (simp add: CompareAndSwapInt32_freed_def deref_def)
  then have "Free_interleave (Some a) (?pcs, w) (?pcs[length pre := Returned], w)"
    by (intro Free_interleave.step) simp_all
  moreover have "?pcs[length pre := Returned] = (pre @ [Returned]) @ replicate m AtCAS"
    by simp
  ultimately have "Free_interleave (Some a) (?pcs, w) ((pre @ [Returned]) @ replicate m AtCAS, w)"
    by simp
  moreover have "(Free_interleave (Some a))\<^sup>*\<^sup>* ((pre @ [Returned]) @ replicate m AtCAS, w)
                   ((pre @ [Returned]) @ replicate m Returned, w)"
    by (rule Suc.IH)
  ultimately have "(Free_interleave (Some a))\<^sup>*\<^sup>* (?pcs, w) ((pre @ [Returned]) @ replicate m Returned, w)"
    by (rule converse_rtranclp_into_rtranclp)
  then show ?case by simp
qed

lemma Free_winner_returns:
  assumes "a < length (heap w)" and "freed (heap w ! a) = 0"
  shows "(Free_interleave (Some a))\<^sup>*\<^sup>* (AtCAS # rest, w) (Returned # rest, snd (Free (Some a) w))"
proof -
  let ?w1 = "store a ((heap w ! a)\<lparr>freed := 1\<rparr>) w"
  let ?w2 = "Free_release a ?w1"
  let ?w3 = "Free_clear a ?w2"
  let ?w4 = "Free_unhook a ?w3"
  have s1: "Free_step (Some a) ((AtCAS # rest) ! 0) w = Some (AtRelease, ?w1)"
    using assms by (simp add: CompareAndSwapInt32_freed_def deref_def)
  have "Free_interleave (Some a) (AtCAS # rest, w) ((AtCAS # rest)[0 := AtRelease], ?w1)"
    using s1 by (intro Free_interleave.step) simp_all
  then have 1: "Free_interleave (Some a) (AtCAS # rest, w) (AtRelease # rest, ?w1)" by simp
  have "Free_interleave (Some a) (AtRelease # rest, ?w1) ((AtRelease # rest)[0 := AtClear], ?w2)"
    by (intro Free_interleave.step) simp_all
  then have 2: "Free_interleave (Some a) (AtRelease # rest, ?w1) (AtClear # rest, ?w2)" by simp
  have "Free_interleave (Some a) (AtClear # rest, ?w2) ((AtClear # rest)[0 := AtUnhook], ?w3)"
    by (intro Free_interleave.step) simp_all
  then have 3: "Free_interleave (Some a) (AtClear # rest, ?w2) (AtUnhook # rest, ?w3)" by simp
  have "Free_interleave (Some a) (AtUnhook # rest, ?w3) ((AtUnhook # rest)[0 := Returned], ?w4)"
    by (intro Free_interleave.step) simp_all
  then have 4: "Free_interleave (Some a) (AtUnhook # rest, ?w3) (Returned # rest, ?w4)" by simp
  have "(Free_interleave (Some a))\<^sup>*\<^sup>* (AtCAS # rest, w) (AtRelease # rest, ?w1)"
    using 1 by (rule r_into_rtranclp)
  then have "(Free_interleave (Some a))\<^sup>*\<^sup>* (AtCAS # rest, w) (AtClear # rest, ?w2)"
    using 2 by (rule rtranclp.rtrancl_into_rtrancl)
  then have "(Free_interleave (Some a))\<^sup>*\<^sup>* (AtCAS # rest, w) (AtUnhook # rest, ?w3)"
    using 3 by (rule rtranclp.rtrancl_into_rtrancl)
  then have "(Free_interleave (Some a))\<^sup>*\<^sup>* (AtCAS # rest, w) (Returned # rest, ?w4)"
    using 4 by (rule rtranclp.rtrancl_into_rtrancl)
  moreover have "snd (Free (Some a) w) = ?w4"
    using assms by (simp add: Free_def CompareAndSwapInt32_freed_def deref_def)
  ultimately show ?thesis by simp
qed

subsection \<open>One call of Free alone, and how long calls can run\<close>

lemma Free_steps_agree:
  "Free_steps 4 x AtCAS w =
     (case Free x w of (Inl e, w') \<Rightarrow> (Crashed e, w') | (Inr u, w') \<Rightarrow> (Returned, w'))"
proof (cases "deref x w")
  case None
  then have "CompareAndSwapInt32_freed x 0 1 w = (Inl NilDeref, w)"
    by (cases x) (simp_all add: CompareAndSwapInt32_freed_def)
  then show ?thesis
    by (simp add: Free_def numeral_eq_Suc)
next
  case (Some j)
  then obtain a where a: "x = Some a" "a < length (heap w)" "heap w ! a = j"
    using deref_Some by blast
  show ?thesis
  proof (cases "freed j = 0")
    case True
    then have "CompareAndSwapInt32_freed x 0 1 w = (Inr True, store a (j\<lparr>freed := 1\<rparr>) w)"
      using Some a(1) by (simp add: CompareAndSwapInt32_freed_def)
    then show ?thesis
      using a(1) by (simp add: Free_def numeral_eq_Suc)
  next
    case False
    then have "CompareAndSwapInt32_freed x 0 1 w = (Inr False, w)"
      using Some a(1) by (simp add: CompareAndSwapInt32_freed_def)
    then show ?thesis
      by (simp add: Free_def numeral_eq_Suc)
  qed
qed

lemma work_update:
  assumes "i < length pcs"
  shows "work (pcs[i := pc']) + remaining (pcs ! i) = work pcs + remaining pc'"
  using assms unfolding work_def
proof (induction pcs arbitrary: i)
  case Nil
  then show ?case by simp
next
  case (Cons p pcs)
  then show ?case by (cases i) auto
qed

lemma Free_step_remaining:
  "Free_step x pc w = Some (pc', w') \<Longrightarrow> remaining pc' < remaining pc"
  by (cases "(x, pc, w)" rule: Free_step.cases)
     (auto split: prod.splits sum.splits bool.splits)

lemma Free_interleave_work:
  assumes "Free_interleave x s s'"
  shows "work (fst s') < work (fst s)"
  using assms
proof cases
  case (step i pcs w pc' w')
  have "remaining pc' < remaining (pcs ! i)"
    using step(4) by (rule Free_step_remaining)
  then show ?thesis
    using work_update [OF step(3), of pc'] step(1,2) by simp
qed

lemma Free_interleave_bounded:
  "(Free_interleave x ^^ k) s s' \<Longrightarrow> k + work (fst s') \<le> work (fst s)"
proof (induction k arbitrary: s')
  case 0
  then show ?case by simp
next
  case (Suc k)
  then obtain m where "(Free_interleave x ^^ k) s m" and "Free_interleave x m s'"
    by auto
  then show ?case
    using Suc.IH [of m] Free_interleave_work [of x m s'] by simp
qed

lemma work_replicate: "work (replicate n AtCAS) = 4 * n"
  by (induction n) (simp_all add: work_def)


lemma Free_step_AtCAS_enabled: "\<exists>pc' w'. Free_step x AtCAS w = Some (pc', w')"
  by (cases "CompareAndSwapInt32_freed x 0 1 w")
     (auto split: sum.splits bool.splits)

lemma Free_inv_loser:
  assumes inv: "Free_inv a r t0 n pcs w" and "i < n" and "pcs ! i = AtCAS"
    and "\<exists>k<n. pcs ! k \<noteq> AtCAS"
  shows "Free_step (Some a) (pcs ! i) w = Some (Returned, w)"
proof -
  from inv have a: "a < length (heap w)" by (simp add: Free_inv_length)
  from inv have "freed (heap w ! a) \<noteq> 0"
  proof (cases rule: Free_inv_cases)
    case unset
    with assms(4) show ?thesis by blast
  qed simp_all
  then show ?thesis
    using a assms(3) by (simp add: CompareAndSwapInt32_freed_def deref_def)
qed

lemma Free_inv_enabled:
  assumes inv: "Free_inv a r t0 n pcs w" and i: "i < n" and "pcs ! i \<noteq> Returned"
  shows "\<exists>pc' w'. Free_step (Some a) (pcs ! i) w = Some (pc', w')"
proof (cases "pcs ! i")
  case AtCAS
  then show ?thesis using Free_step_AtCAS_enabled by simp
next
  case Returned
  with assms(3) show ?thesis by simp
next
  case (Crashed e)
  from inv show ?thesis
  proof (cases rule: Free_inv_cases)
    case unset
    with i Crashed show ?thesis by auto
  next
    case (won j)
    with i Crashed show ?thesis by (cases "i = j") auto
  next
    case released
    with i Crashed show ?thesis by auto
  qed
qed simp_all

subsection \<open>Concurrent calls of GetSharedInstance\<close>

lemma GetShared_steps_agree:
  "GetShared_steps 4 E paths AtDo w =
     (case GetSharedInstance E paths w of (r, w') \<Rightarrow> (Finished r, w'))"
proof (cases "once_Do (shared_init E paths) w")
  case (Pair r w1)
  show ?thesis
  proof (cases r)
    case (Inl e)
    with Pair show ?thesis
      by (simp add: GetSharedInstance_def numeral_eq_Suc)
  next
    case (Inr u)
    with Pair show ?thesis
      by (simp add: GetSharedInstance_def numeral_eq_Suc Let_def split: sum.split)
  qed
qed

lemma readers_update:
  assumes "i < length ts"
  shows "readers (ts[i := t]) + (if holds_lock (snd (ts ! i)) then 1 else 0)
           = readers ts + (if holds_lock (snd t) then 1 else 0)"
  using assms unfolding readers_def
proof (induction ts arbitrary: i)
  case Nil
  then show ?case by simp
next
  case (Cons p ts)
  then show ?case by (cases i) auto
qed

lemma readers_member:
  "i < length ts \<Longrightarrow> holds_lock (snd (ts ! i)) \<Longrightarrow> 0 < readers ts"
  unfolding readers_def by (auto simp: filter_empty_conv)

lemma Shared_inv_load:
  assumes once: "sharedInstanceOnce w0" and d: "deref (sharedInstance w0) w0 = Some j"
    and inv: "Shared_inv w0 j ts v"
  shows "GetShared_step E paths AtDo v = Some (AtRLock, v)"
    and "GetShared_step E paths AtLoad v = Some (AtRUnlock (shared_outcome w0 j), v)"
proof -
  from inv have v: "v = w0\<lparr>sharedInstanceLock := sharedInstanceLock w0 + readers ts\<rparr>"
    by (simp add: Shared_inv_def)
  have s: "sharedInstance v = sharedInstance w0" and o: "sharedInstanceOnce v"
    using once by (simp_all add: v)
  have "deref (sharedInstance w0) v = Some j"
    using d deref_heap [of v w0 "sharedInstance w0"] by (simp add: v)
  then have l: "LoadInt32_freed (sharedInstance v) v = Inr (freed j)"
    by (simp add: s LoadInt32_freed_def)
  show "GetShared_step E paths AtDo v = Some (AtRLock, v)"
    using o by (simp add: once_Do_def)
  show "GetShared_step E paths AtLoad v = Some (AtRUnlock (shared_outcome w0 j), v)"
    using l by (simp add: shared_outcome_def s)
qed

lemma Shared_inv_results:
  assumes "\<forall>k<length ts. \<forall>q. snd (ts ! k) = AtRUnlock q \<or> snd (ts ! k) = Finished q \<longrightarrow> q = r"
    and "\<forall>q. pc' = AtRUnlock q \<or> pc' = Finished q \<longrightarrow> q = r"
  shows "\<forall>k<length (ts[i := (paths, pc')]). \<forall>q.
           snd (ts[i := (paths, pc')] ! k) = AtRUnlock q \<or> snd (ts[i := (paths, pc')] ! k) = Finished q
             \<longrightarrow> q = r"
proof (intro allI impI)
  fix k q
  assume k: "k < length (ts[i := (paths, pc')])"
    and q: "snd (ts[i := (paths, pc')] ! k) = AtRUnlock q \<or> snd (ts[i := (paths, pc')] ! k) = Finished q"
  show "q = r"
  proof (cases "k = i")
    case True
    with k q have "pc' = AtRUnlock q \<or> pc' = Finished q" by simp
    with assms(2) show ?thesis by blast
  next
    case False
    with k q have "k < length ts"
      and "snd (ts ! k) = AtRUnlock q \<or> snd (ts ! k) = Finished q" by simp_all
    with assms(1) show ?thesis by blast
  qed
qed

lemma Shared_inv_step:
  assumes once: "sharedInstanceOnce w0" and d: "deref (sharedInstance w0) w0 = Some j"
    and inv: "Shared_inv w0 j ts v"
    and i: "i < length ts" and t: "ts ! i = (paths, pc)"
    and st: "GetShared_step E paths pc v = Some (pc', v')"
  shows "Shared_inv w0 j (ts[i := (paths, pc')]) v'"
proof -
  from inv have v: "v = w0\<lparr>sharedInstanceLock := sharedInstanceLock w0 + readers ts\<rparr>"
    and res: "\<forall>k<length ts. \<forall>q. snd (ts ! k) = AtRUnlock q \<or> snd (ts ! k) = Finished q
                \<longrightarrow> q = shared_outcome w0 j"
    by (simp_all add: Shared_inv_def)
  note count = readers_update [OF i, of "(paths, pc')"]
  have pc: "snd (ts ! i) = pc" using t by simp
  show ?thesis
  proof (cases pc)
    case AtDo
    with st Shared_inv_load(1) [OF once d inv, of E paths]
    have "pc' = AtRLock" and "v' = v" by simp_all
    moreover from this have "readers (ts[i := (paths, pc')]) = readers ts"
      using count pc AtDo by simp
    ultimately show ?thesis
      unfolding Shared_inv_def using v res by (intro conjI Shared_inv_results) simp_all
  next
    case AtRLock
    with st have "pc' = AtLoad" and v': "v' = RLock v" by simp_all
    moreover from this have "readers (ts[i := (paths, pc')]) = Suc (readers ts)"
      using count pc AtRLock by simp
    ultimately show ?thesis
      unfolding Shared_inv_def using res
      by (intro conjI Shared_inv_results) (simp_all add: v RLock_def)
  next
    case AtLoad
    with st Shared_inv_load(2) [OF once d inv, of E paths]
    have "pc' = AtRUnlock (shared_outcome w0 j)" and "v' = v" by simp_all
    moreover from this have "readers (ts[i := (paths, pc')]) = readers ts"
      using count pc AtLoad by simp
    ultimately show ?thesis
      unfolding Shared_inv_def using v res by (intro conjI Shared_inv_results) simp_all
  next
    case (AtRUnlock q)
    with st have pc': "pc' = Finished q" and v': "v' = RUnlock v" by simp_all
    have q: "q = shared_outcome w0 j" using res i pc AtRUnlock by blast
    have "Suc (readers (ts[i := (paths, pc')])) = readers ts"
      using count pc AtRUnlock pc' by simp
    then have "sharedInstanceLock w0 + readers ts - 1
                 = sharedInstanceLock w0 + readers (ts[i := (paths, pc')])"
      by arith
    then show ?thesis
      unfolding Shared_inv_def using res pc' q
      by (intro conjI Shared_inv_results) (simp_all add: v v' RUnlock_def)
  next
    case (Finished q)
    with st show ?thesis by simp
  qed
qed

lemma Shared_inv_reachable:
  assumes once: "sharedInstanceOnce w0" and d: "deref (sharedInstance w0) w0 = Some j"
    and "(Shared_interleave E)\<^sup>*\<^sup>* s s'" and "Shared_inv w0 j (fst s) (snd s)"
  shows "Shared_inv w0 j (fst s') (snd s')"
  using assms(3,4)
proof (induction rule: rtranclp_induct)
  case base
  then show ?case .
next
  case (step y z)
  have y: "Shared_inv w0 j (fst y) (snd y)" using step.IH step.prems by simp
  from step.hyps(2) show ?case
  proof cases
    case (step i ts paths pc w pc' w')
    then show ?thesis
      using y Shared_inv_step [OF once d, of ts w i paths pc E pc' w'] by simp
  qed
qed

lemma readers_start: "readers (map (\<lambda>ps. (ps, AtDo)) pss) = 0"
  by (induction pss) (simp_all add: readers_def)

lemma Shared_inv_start: "Shared_inv w j (map (\<lambda>ps. (ps, AtDo)) pss) w"
  by (simp add: Shared_inv_def readers_start)

lemma GetShared_step_enabled:
  "(\<forall>q. pc \<noteq> Finished q) \<Longrightarrow> \<exists>pc' w'. GetShared_step E paths pc w = Some (pc', w')"
  by (cases "(E, paths, pc, w)" rule: GetShared_step.cases)
     (auto split: prod.splits sum.splits)

subsection \<open>The loop of the weighted-pair converter\<close>

lemma cwordweights_loop_sentinel:
  "cwordweights_loop (map c_record ps @ c_sentinel f # rest) s = Inr (s @ map go_pair ps)"
  by (induction ps arbitrary: s) (simp_all add: c_record_def c_sentinel_def go_pair_def)

lemma cwordweights_loop_no_sentinel:
  "\<forall>r\<in>set x. word r \<noteq> None \<Longrightarrow> cwordweights_loop x s = Inl NativeFault"
  by (induction x arbitrary: s) auto

subsection \<open>The dictionary check\<close>






subsection \<open>The example worlds\<close>

lemma example_dicts_present: "check_dict_files dicts_present example_dicts = Inr ()"
  by (simp add: example_dicts_def dicts_present_def)

lemma NewJieba_boot: "NewJieba example_env [] (boot dicts_present) = (Inr 0, fresh_handle)"
  by (simp add: NewJieba_def example_env_def boot_def example_dicts_present Let_def
      world_defs fresh_handle_def boot_calls_def)
     (simp add: example_dicts_def)

lemma Free_fresh_handle: "Free (Some 0) fresh_handle = (Inr (), freed_handle)"
  by (simp add: Free_first fresh_handle_def freed_handle_def)

lemma deref_fresh_handle: "deref (Some 0) fresh_handle = Some \<lparr>jieba = Some 6, freed = 0\<rparr>"
  by (simp add: deref_def fresh_handle_def)

lemma deref_freed_handle: "deref (Some 0) freed_handle = Some \<lparr>jieba = None, freed = 1\<rparr>"
  by (simp add: deref_def freed_handle_def)

subsection \<open>Which queries read the flag\<close>

lemma trace_emits: "trace (emits cs w) = trace w @ cs"
  by (simp add: emits_def)

lemma checkFreed_set:
  "deref x w = Some j \<Longrightarrow> freed j \<noteq> 0 \<Longrightarrow>
     checkFreed x w = Inl (Panic ''Jieba instance has been freed'')"
  by (simp add: checkFreed_def LoadInt32_freed_def)

lemma guarded_queries_panic_when_freed:
  assumes "deref x w = Some j" and "freed j \<noteq> 0"
  shows "Cut E x s hmm w = (Inl (Panic ''Jieba instance has been freed''), w)"
    and "CutAll E x s w = (Inl (Panic ''Jieba instance has been freed''), w)"
    and "CutForSearch E x s hmm w = (Inl (Panic ''Jieba instance has been freed''), w)"
    and "Tag E x s w = (Inl (Panic ''Jieba instance has been freed''), w)"
  using checkFreed_set [OF assms]
  by (simp_all add: Cut_def CutAll_def CutForSearch_def Tag_def)

lemma unguarded_queries_call_native:
  assumes "deref x w = Some j"
  shows "trace (snd (Tokenize E x s mode hmm w)) =
           trace w @ [C_CString s, C_Tokenize (jieba j) s (ucast mode) (ucast (c_int_hmm hmm)),
                      C_free_Words, C_free s]"
    and "C_Extract (jieba j) s (ucast topk) \<in> set (trace (snd (Extract E x s topk w)))"
    and "C_ExtractWithWeight (jieba j) s (ucast topk)
           \<in> set (trace (snd (ExtractWithWeight E x s topk w)))"
  using assms
  by (simp_all add: Tokenize_def Extract_def ExtractWithWeight_def Let_def emit_emits
      emits_emits trace_emits split: sum.split)

section \<open>The claims\<close>

text \<open>
  Claim C7. Whatever array the native side hands over, if it consists of records
  with a word, then a record whose word is null, then anything at all, the
  converter returns the pairs of the records before the null one, in the order of
  the array; when the very first record has a null word the result is the empty
  sequence and not an error.
\<close>

theorem cwordweights_upto_first_null:
  "cwordweights (map c_record ps @ c_sentinel f # rest) = Inr (map go_pair ps)
   \<and> cwordweights (c_sentinel f # rest) = Inr []"
proof
  show "cwordweights (map c_record ps @ c_sentinel f # rest) = Inr (map go_pair ps)"
    unfolding cwordweights_def by (simp add: cwordweights_loop_sentinel)
  show "cwordweights (c_sentinel f # rest) = Inr []"
    unfolding cwordweights_def by (simp add: c_sentinel_def)
qed




text \<open>
  Claim C5. Let the shared instance have been constructed. A call of
  \<open>GetSharedInstance\<close> with any arguments panics with "Shared Jieba instance
  has been freed" if the instance's flag is set and returns the shared handle
  otherwise, and leaves the world as it was; and the call is what its four
  steps running alone make of the world, in every world. The flag is read under
  the read lock: however the steps of any number of concurrent calls interleave,
  the world differs from the one before them only in the reader count of
  \<open>sharedInstanceLock\<close>, which exceeds its old value by the number of calls that
  have passed their \<open>RLock\<close> and not yet their deferred \<open>RUnlock\<close>; a call that
  is at its load of the flag is among these, so the count is positive, and its
  load yields the outcome above; every outcome a call holds at its \<open>RUnlock\<close> or
  has finished with is that outcome; and every call that has not finished can
  take its next step.
\<close>

theorem GetSharedInstance_checks_freed_flag:
  assumes "sharedInstanceOnce w" and "deref (sharedInstance w) w = Some j"
  shows "GetSharedInstance E paths w =
           (if freed j \<noteq> 0 then Inl (Panic ''Shared Jieba instance has been freed'')
            else Inr (sharedInstance w), w)
       \<and> (\<forall>v. GetShared_steps 4 E paths AtDo v =
                 (case GetSharedInstance E paths v of (r, v') \<Rightarrow> (Finished r, v')))
       \<and> (\<forall>pss ts v.
            (Shared_interleave E)\<^sup>*\<^sup>* (map (\<lambda>ps. (ps, AtDo)) pss, w) (ts, v) \<longrightarrow>
            v = w\<lparr>sharedInstanceLock := sharedInstanceLock w + readers ts\<rparr>
            \<and> (\<forall>i<length ts.
                  (snd (ts ! i) = AtLoad \<longrightarrow>
                     0 < sharedInstanceLock v
                     \<and> GetShared_step E (fst (ts ! i)) AtLoad v
                         = Some (AtRUnlock (shared_outcome w j), v))
                  \<and> (\<forall>q. snd (ts ! i) = AtRUnlock q \<or> snd (ts ! i) = Finished q
                         \<longrightarrow> q = shared_outcome w j)
                  \<and> ((\<forall>q. snd (ts ! i) \<noteq> Finished q) \<longrightarrow>
                       (\<exists>pc' v'. GetShared_step E (fst (ts ! i)) (snd (ts ! i)) v
                                   = Some (pc', v')))))"
proof (intro conjI allI impI)
  show "GetSharedInstance E paths w =
           (if freed j \<noteq> 0 then Inl (Panic ''Shared Jieba instance has been freed'')
            else Inr (sharedInstance w), w)"
    using assms by (rule GetSharedInstance_constructed)
next
  fix v
  show "GetShared_steps 4 E paths AtDo v =
          (case GetSharedInstance E paths v of (r, v') \<Rightarrow> (Finished r, v'))"
    by (rule GetShared_steps_agree)
next
  fix pss ts v
  assume reach: "(Shared_interleave E)\<^sup>*\<^sup>* (map (\<lambda>ps. (ps, AtDo)) pss, w) (ts, v)"
  have "Shared_inv w j (fst (ts, v)) (snd (ts, v))"
    using assms reach
  proof (rule Shared_inv_reachable)
    show "Shared_inv w j (fst (map (\<lambda>ps. (ps, AtDo)) pss, w)) (snd (map (\<lambda>ps. (ps, AtDo)) pss, w))"
      by (simp add: Shared_inv_start)
  qed
  then have inv: "Shared_inv w j ts v" by simp
  then show v: "v = w\<lparr>sharedInstanceLock := sharedInstanceLock w + readers ts\<rparr>"
    by (simp add: Shared_inv_def)
  fix i
  assume i: "i < length ts"
  {
    assume l: "snd (ts ! i) = AtLoad"
    then have "0 < readers ts" using i by (intro readers_member [of i]) simp_all
    then show "0 < sharedInstanceLock v" by (subst v) simp
    show "GetShared_step E (fst (ts ! i)) AtLoad v = Some (AtRUnlock (shared_outcome w j), v)"
      using assms inv by (rule Shared_inv_load(2))
  }
  {
    fix q
    assume "snd (ts ! i) = AtRUnlock q \<or> snd (ts ! i) = Finished q"
    then show "q = shared_outcome w j"
      using inv i unfolding Shared_inv_def by blast
  }
  {
    assume "\<forall>q. snd (ts ! i) \<noteq> Finished q"
    then show "\<exists>pc' v'. GetShared_step E (fst (ts ! i)) (snd (ts ! i)) v = Some (pc', v')"
      by (rule GetShared_step_enabled)
  }
qed

theorem GetSharedInstance_checks_freed_flag_witness:
  "GetSharedInstance example_env [] (freed_handle\<lparr>sharedInstance := Some 0, sharedInstanceOnce := True\<rparr>)
     = (Inl (Panic ''Shared Jieba instance has been freed''),
        freed_handle\<lparr>sharedInstance := Some 0, sharedInstanceOnce := True\<rparr>)
   \<and> GetSharedInstance example_env [] (fresh_handle\<lparr>sharedInstance := Some 0, sharedInstanceOnce := True\<rparr>)
     = (Inr (Some 0), fresh_handle\<lparr>sharedInstance := Some 0, sharedInstanceOnce := True\<rparr>)
   \<and> GetShared_steps 4 example_env [] AtDo
         (fresh_handle\<lparr>sharedInstance := Some 0, sharedInstanceOnce := True\<rparr>)
     = (Finished (Inr (Some 0)), fresh_handle\<lparr>sharedInstance := Some 0, sharedInstanceOnce := True\<rparr>)
   \<and> (Shared_interleave example_env)\<^sup>*\<^sup>*
         ([([], AtDo), ([''a''], AtDo)],
          fresh_handle\<lparr>sharedInstance := Some 0, sharedInstanceOnce := True\<rparr>)
         ([([], AtDo), ([''a''], AtLoad)],
          RLock (fresh_handle\<lparr>sharedInstance := Some 0, sharedInstanceOnce := True\<rparr>))
   \<and> sharedInstanceLock (RLock (fresh_handle\<lparr>sharedInstance := Some 0, sharedInstanceOnce := True\<rparr>))
       = 1
   \<and> GetShared_step example_env [''a''] AtLoad
         (RLock (fresh_handle\<lparr>sharedInstance := Some 0, sharedInstanceOnce := True\<rparr>))
       = Some (AtRUnlock (Inr (Some 0)),
               RLock (fresh_handle\<lparr>sharedInstance := Some 0, sharedInstanceOnce := True\<rparr>))"
proof -
  let ?sf = "fresh_handle\<lparr>sharedInstance := Some 0, sharedInstanceOnce := True\<rparr>"
  let ?sx = "freed_handle\<lparr>sharedInstance := Some 0, sharedInstanceOnce := True\<rparr>"
  let ?j = "\<lparr>jieba = Some 6, freed = 0\<rparr>"
  have once: "sharedInstanceOnce ?sf" "sharedInstanceOnce ?sx" by simp_all
  have d: "deref (sharedInstance ?sf) ?sf = Some ?j"
    by (simp add: deref_def fresh_handle_def)
  have dx: "deref (sharedInstance ?sx) ?sx = Some \<lparr>jieba = None, freed = 1\<rparr>"
    by (simp add: deref_def freed_handle_def)
  have out: "shared_outcome ?sf ?j = Inr (Some 0)"
    by (simp add: shared_outcome_def)
  note freed = GetSharedInstance_checks_freed_flag [OF once(2) dx, of example_env "[]", THEN conjunct1]
  note all = GetSharedInstance_checks_freed_flag [OF once(1) d, of example_env "[]"]
  from freed have 1: "GetSharedInstance example_env [] ?sx
     = (Inl (Panic ''Shared Jieba instance has been freed''), ?sx)"
    by simp
  from all [THEN conjunct1] have 2: "GetSharedInstance example_env [] ?sf = (Inr (Some 0), ?sf)"
    by simp
  from all [THEN conjunct2, THEN conjunct1, rule_format, of ?sf]
  have 3: "GetShared_steps 4 example_env [] AtDo ?sf = (Finished (Inr (Some 0)), ?sf)"
    by (simp add: 2)
  have "GetShared_step example_env [''a''] AtDo ?sf = Some (AtRLock, ?sf)"
    by (simp add: once_Do_def)
  then have "Shared_interleave example_env ([([], AtDo), ([''a''], AtDo)], ?sf)
               ([([], AtDo), ([''a''], AtDo)][1 := ([''a''], AtRLock)], ?sf)"
    by (intro Shared_interleave.step [where pc = AtDo]) simp_all
  then have s1: "Shared_interleave example_env ([([], AtDo), ([''a''], AtDo)], ?sf)
               ([([], AtDo), ([''a''], AtRLock)], ?sf)"
    by simp
  have "Shared_interleave example_env ([([], AtDo), ([''a''], AtRLock)], ?sf)
               ([([], AtDo), ([''a''], AtRLock)][1 := ([''a''], AtLoad)], RLock ?sf)"
    by (intro Shared_interleave.step [where pc = AtRLock]) simp_all
  then have s2: "Shared_interleave example_env ([([], AtDo), ([''a''], AtRLock)], ?sf)
               ([([], AtDo), ([''a''], AtLoad)], RLock ?sf)"
    by simp
  have "(Shared_interleave example_env)\<^sup>*\<^sup>* ([([], AtDo), ([''a''], AtDo)], ?sf)
          ([([], AtDo), ([''a''], AtRLock)], ?sf)"
    using s1 by (rule r_into_rtranclp)
  then have 4: "(Shared_interleave example_env)\<^sup>*\<^sup>* ([([], AtDo), ([''a''], AtDo)], ?sf)
          ([([], AtDo), ([''a''], AtLoad)], RLock ?sf)"
    using s2 by (rule rtranclp.rtrancl_into_rtrancl)
  have m: "map (\<lambda>ps. (ps, AtDo)) [[], [''a'']] = [([], AtDo), ([''a''], AtDo)]"
    by simp
  note conc = all [THEN conjunct2, THEN conjunct2, THEN spec, THEN spec, THEN spec, THEN mp,
    of "[[], [''a'']]" "[([], AtDo), ([''a''], AtLoad)]" "RLock ?sf", unfolded m, OF 4]
  have len: "(1::nat) < length [([]::string list, AtDo), ([''a''], AtLoad)]" by simp
  have at: "snd ([([]::string list, AtDo), ([''a''], AtLoad)] ! 1) = AtLoad" by simp
  from conc [THEN conjunct2, THEN spec, THEN mp, OF len, THEN conjunct1, THEN mp, OF at]
  have pos: "0 < sharedInstanceLock (RLock ?sf)"
    and 6: "GetShared_step example_env [''a''] AtLoad (RLock ?sf)
              = Some (AtRUnlock (Inr (Some 0)), RLock ?sf)"
    by (simp_all add: out)
  from conc [THEN conjunct1]
  have "sharedInstanceLock (RLock ?sf)
          = sharedInstanceLock (?sf\<lparr>sharedInstanceLock :=
              sharedInstanceLock ?sf + readers [([], AtDo), ([''a''], AtLoad)]\<rparr>)"
    by (rule arg_cong)
  then have 5: "sharedInstanceLock (RLock ?sf) = 1"
    by (simp add: readers_def fresh_handle_def)
  from 1 2 3 4 5 6 show ?thesis by (intro conjI)
qed

text \<open>
  Claim C6. On any allocated handle, whatever its \<open>freed\<close> flag holds, \<open>AddWord\<close>,
  \<open>AddWordEx\<close> and \<open>RemoveWord\<close> return normally after making the C strings,
  calling the native function with the handle's native reference and freeing the
  strings: the flag is never read.
\<close>

theorem dictionary_updates_skip_freed_guard:
  assumes "deref x w = Some j"
  shows "AddWord E x s w = (Inr (), emits [C_CString s, C_AddWord (jieba j) s, C_free s] w)
       \<and> AddWordEx E x s freq tag w =
           (Inr (), emits [C_CString s, C_CString tag,
                           C_AddWordEx (jieba j) s (ucast freq) tag, C_free s, C_free tag] w)
       \<and> RemoveWord E x s w =
           (Inr (), emits [C_CString s, C_RemoveWord (jieba j) s, C_free s] w)"
  using assms
  by (simp add: AddWord_def AddWordEx_def RemoveWord_def emit_emits emits_emits)

theorem dictionary_updates_skip_freed_guard_witness:
  "checkFreed (Some 0) freed_handle = Inl (Panic ''Jieba instance has been freed'')
   \<and> AddWord example_env (Some 0) ''a'' freed_handle
       = (Inr (), emits [C_CString ''a'', C_AddWord None ''a'', C_free ''a''] freed_handle)
   \<and> AddWordEx example_env (Some 0) ''a'' 3 ''n'' freed_handle
       = (Inr (), emits [C_CString ''a'', C_CString ''n'', C_AddWordEx None ''a'' 3 ''n'',
                         C_free ''a'', C_free ''n''] freed_handle)
   \<and> RemoveWord example_env (Some 0) ''a'' freed_handle
       = (Inr (), emits [C_CString ''a'', C_RemoveWord None ''a'', C_free ''a''] freed_handle)"
  using dictionary_updates_skip_freed_guard
          [OF deref_freed_handle, of example_env "''a''" 3 "''n''"]
  by (simp add: checkFreed_def LoadInt32_freed_def deref_freed_handle)


text \<open>
  Claim C9. The first \<open>Free\<close> on a handle whose flag is unset returns normally
  and leaves the handle with a nil native reference and the flag set to 1.
  From then on, whatever the process does with the package, \<open>checkFreed\<close> on
  that handle panics. The call changes nothing else that a caller can see: every
  other handle and the number of handles, the shared-instance variables and the
  file system are as before; the runtime no longer holds a finalizer for the
  handle, and the one native call made is the release of the reference the
  handle held.
\<close>

theorem Free_clears_and_marks:
  assumes "deref x w = Some j" and "freed j = 0"
  shows "fst (Free x w) = Inr ()
       \<and> deref x (snd (Free x w)) = Some \<lparr>jieba = None, freed = 1\<rparr>
       \<and> (\<forall>acts. checkFreed x (run E acts (snd (Free x w)))
                    = Inl (Panic ''Jieba instance has been freed''))
       \<and> (\<forall>y. y \<noteq> x \<longrightarrow> deref y (snd (Free x w)) = deref y w)
       \<and> length (heap (snd (Free x w))) = length (heap w)
       \<and> sharedInstance (snd (Free x w)) = sharedInstance w
       \<and> sharedInstanceOnce (snd (Free x w)) = sharedInstanceOnce w
       \<and> sharedInstanceLock (snd (Free x w)) = sharedInstanceLock w
       \<and> fs (snd (Free x w)) = fs w
       \<and> finalizers (snd (Free x w)) = finalizers w - set_option x
       \<and> trace (snd (Free x w)) = trace w @ [C_FreeJieba (jieba j)]"
proof -
  obtain a where a: "x = Some a" "a < length (heap w)" "heap w ! a = j"
    using deref_Some [OF assms(1)] by blast
  let ?w' = "w\<lparr>heap := (heap w)[a := \<lparr>jieba = None, freed = 1\<rparr>],
               finalizers := finalizers w - {a},
               trace := trace w @ [C_FreeJieba (jieba j)]\<rparr>"
  have F: "Free x w = (Inr (), ?w')"
    using a assms(2) Free_first [of a w] by simp
  have later: "checkFreed x (run E acts ?w') = Inl (Panic ''Jieba instance has been freed'')"
    for acts
  proof -
    have "a < length (heap ?w')" and "freed (heap ?w' ! a) \<noteq> 0"
      using a by simp_all
    then have "a < length (heap (run E acts ?w')) \<and> freed (heap (run E acts ?w') ! a) \<noteq> 0"
      by (rule run_keeps_freed)
    then show ?thesis
      using a(1) by (simp add: checkFreed_def LoadInt32_freed_def deref_def)
  qed
  have others: "deref y ?w' = deref y w" if "y \<noteq> x" for y
    using that a(1) by (cases y) (simp_all add: deref_def)
  have self: "deref x ?w' = Some \<lparr>jieba = None, freed = 1\<rparr>"
    using a by (simp add: deref_def)
  show ?thesis
    unfolding F using later others self a(1) by simp
qed

theorem Free_clears_and_marks_witness:
  "fst (Free (Some 0) fresh_handle) = Inr ()
   \<and> deref (Some 0) (snd (Free (Some 0) fresh_handle)) = Some \<lparr>jieba = None, freed = 1\<rparr>
   \<and> checkFreed (Some 0)
        (run example_env [A_AddWord (Some 0) ''a'', A_Free (Some 0), A_NewJieba []]
           (snd (Free (Some 0) fresh_handle)))
       = Inl (Panic ''Jieba instance has been freed'')
   \<and> deref None (snd (Free (Some 0) fresh_handle)) = deref None fresh_handle
   \<and> trace (snd (Free (Some 0) fresh_handle)) = boot_calls @ [C_FreeJieba (Some 6)]"
proof -
  have unset: "freed \<lparr>jieba = Some 6, freed = 0\<rparr> = 0" by simp
  have t: "trace fresh_handle = boot_calls" by (simp add: fresh_handle_def)
  note all = Free_clears_and_marks [OF deref_fresh_handle unset, of example_env]
  from all have later: "checkFreed (Some 0)
        (run example_env [A_AddWord (Some 0) ''a'', A_Free (Some 0), A_NewJieba []]
           (snd (Free (Some 0) fresh_handle)))
       = Inl (Panic ''Jieba instance has been freed'')"
    by blast
  from all have other: "deref None (snd (Free (Some 0) fresh_handle)) = deref None fresh_handle"
    by blast
  from all have "trace (snd (Free (Some 0) fresh_handle))
                   = trace fresh_handle @ [C_FreeJieba (jieba \<lparr>jieba = Some 6, freed = 0\<rparr>)]"
    by blast
  then have made: "trace (snd (Free (Some 0) fresh_handle)) = boot_calls @ [C_FreeJieba (Some 6)]"
    by (simp add: t)
  from all later other made show ?thesis by blast
qed

text \<open>
  Claim C10. Let the construction inside the first \<open>GetSharedInstance\<close> call
  panic. Then that call panics with the same value, the done flag of
  \<open>sharedInstanceOnce\<close> is set all the same and \<open>sharedInstance\<close> is still nil.
  Whatever the process does afterwards, the file system being repaired
  included, every later \<open>GetSharedInstance\<close> call with any arguments panics with
  a nil dereference and leaves the world untouched: construction is not tried
  again and the first error is not reported again.
\<close>

theorem failed_shared_construction_is_never_retried:
  assumes "\<not> sharedInstanceOnce w" and "sharedInstance w = None"
    and "fst (NewJieba E paths w) = Inl e"
  shows "fst (GetSharedInstance E paths w) = Inl e
       \<and> sharedInstanceOnce (snd (GetSharedInstance E paths w))
       \<and> sharedInstance (snd (GetSharedInstance E paths w)) = None
       \<and> (\<forall>acts paths'.
            GetSharedInstance E paths' (run E acts (snd (GetSharedInstance E paths w)))
              = (Inl NilDeref, run E acts (snd (GetSharedInstance E paths w))))"
proof -
  let ?w1 = "snd (GetSharedInstance E paths w)"
  have G: "GetSharedInstance E paths w =
             (Inl e, (snd (NewJieba E paths w))\<lparr>sharedInstanceOnce := True\<rparr>)"
    using assms(1,3) by (rule GetSharedInstance_first_panics)
  have once: "sharedInstanceOnce ?w1" by (simp add: G)
  have nil: "sharedInstance ?w1 = None"
    using assms(2) NewJieba_frame [of E paths w] by (simp add: G)
  have "GetSharedInstance E paths' (run E acts ?w1) = (Inl NilDeref, run E acts ?w1)"
    for acts paths'
  proof -
    have "sharedInstanceOnce (run E acts ?w1)" and "sharedInstance (run E acts ?w1) = None"
      using run_keeps_shared [OF once, of E acts] nil by simp_all
    then show ?thesis
      by (simp add: GetSharedInstance_nil deref_def)
  qed
  with once nil show ?thesis by (simp add: G)
qed

theorem failed_shared_construction_is_never_retried_witness:
  "fst (GetSharedInstance example_env [] (boot no_files))
     = Inl (Panic ''Dictionary file does not exist: dict/jieba.dict.utf8'')
   \<and> fst (GetSharedInstance example_env []
            (run example_env [A_files dicts_present]
               (snd (GetSharedInstance example_env [] (boot no_files)))))
       = Inl NilDeref
   \<and> fst (NewJieba example_env []
            (run example_env [A_files dicts_present]
               (snd (GetSharedInstance example_env [] (boot no_files)))))
       = Inr 0"
proof -
  have n: "NewJieba example_env [] (boot no_files)
     = (Inl (Panic ''Dictionary file does not exist: dict/jieba.dict.utf8''), boot no_files)"
    by (simp add: NewJieba_def example_env_def example_dicts_def boot_def no_files_def)
  have b: "\<not> sharedInstanceOnce (boot no_files)" "sharedInstance (boot no_files) = None"
    by (simp_all add: boot_def)
  have e: "fst (NewJieba example_env [] (boot no_files))
     = Inl (Panic ''Dictionary file does not exist: dict/jieba.dict.utf8'')"
    by (simp add: n)
  note all = failed_shared_construction_is_never_retried [OF b e]
  from all have first: "fst (GetSharedInstance example_env [] (boot no_files))
     = Inl (Panic ''Dictionary file does not exist: dict/jieba.dict.utf8'')"
    by blast
  from all have "GetSharedInstance example_env []
            (run example_env [A_files dicts_present]
               (snd (GetSharedInstance example_env [] (boot no_files))))
       = (Inl NilDeref, run example_env [A_files dicts_present]
               (snd (GetSharedInstance example_env [] (boot no_files))))"
    by blast
  then have later: "fst (GetSharedInstance example_env []
            (run example_env [A_files dicts_present]
               (snd (GetSharedInstance example_env [] (boot no_files)))))
       = Inl NilDeref"
    by simp
  have g: "snd (GetSharedInstance example_env [] (boot no_files))
             = (boot no_files)\<lparr>sharedInstanceOnce := True\<rparr>"
    using GetSharedInstance_first_panics [OF b(1) e] n by simp
  have "fst (NewJieba example_env [] ((boot no_files)\<lparr>sharedInstanceOnce := True, fs := dicts_present\<rparr>))
          = Inr 0"
    by (simp add: NewJieba_def example_env_def boot_def example_dicts_present Let_def world_defs)
       (simp add: example_dicts_def)
  then have again: "fst (NewJieba example_env []
            (run example_env [A_files dicts_present]
               (snd (GetSharedInstance example_env [] (boot no_files)))))
       = Inr 0"
    by (simp add: g)
  from first later again show ?thesis by blast
qed



text \<open>
  Claim C2. Take a handle whose flag is unset and \<open>n\<close> calls of \<open>Free\<close> on it,
  \<open>n\<close> at least 1, running concurrently. However their statements interleave,
  once all calls have returned the trace is the one before the calls followed by
  a single native call, the release of the reference the handle held; and the
  calls can all return. \<open>Free\<close> on a handle whose flag is set returns without
  changing anything, and \<open>Free\<close> is what the four steps of one call running
  alone make of the world, on every handle and world. In the interleaved system
  a call that comes to its compare-and-swap after another call has left its own
  returns in that one step and leaves the world as it is. Every call that has
  not returned can take its next step, so none blocks and none panics, and no
  interleaving has more than \<open>4 * n\<close> steps; where no step is left, all calls
  have returned. So every interleaving ends with all calls returned.
\<close>

theorem Free_releases_exactly_once:
  assumes "deref x w0 = Some j" and "freed j = 0" and "0 < n"
  shows "(\<forall>pcs w. (Free_interleave x)\<^sup>*\<^sup>* (replicate n AtCAS, w0) (pcs, w) \<longrightarrow>
             (\<forall>pc\<in>set pcs. pc = Returned) \<longrightarrow>
             trace w = trace w0 @ [C_FreeJieba (jieba j)] \<and> releases w = Suc (releases w0))
       \<and> (\<exists>w. (Free_interleave x)\<^sup>*\<^sup>* (replicate n AtCAS, w0) (replicate n Returned, w))
       \<and> (\<forall>w j'. deref x w = Some j' \<longrightarrow> freed j' \<noteq> 0 \<longrightarrow> Free x w = (Inr (), w))
       \<and> (\<forall>w. Free_steps 4 x AtCAS w =
                 (case Free x w of (Inl e, w') \<Rightarrow> (Crashed e, w')
                                 | (Inr u, w') \<Rightarrow> (Returned, w')))
       \<and> (\<forall>pcs w i. (Free_interleave x)\<^sup>*\<^sup>* (replicate n AtCAS, w0) (pcs, w) \<longrightarrow>
             i < n \<longrightarrow> pcs ! i = AtCAS \<longrightarrow> (\<exists>k<n. pcs ! k \<noteq> AtCAS) \<longrightarrow>
             Free_step x (pcs ! i) w = Some (Returned, w))
       \<and> (\<forall>pcs w i. (Free_interleave x)\<^sup>*\<^sup>* (replicate n AtCAS, w0) (pcs, w) \<longrightarrow>
             i < n \<longrightarrow> pcs ! i \<noteq> Returned \<longrightarrow>
             (\<exists>pc' w'. Free_step x (pcs ! i) w = Some (pc', w')))
       \<and> (\<forall>k pcs w. (Free_interleave x ^^ k) (replicate n AtCAS, w0) (pcs, w) \<longrightarrow> k \<le> 4 * n)
       \<and> (\<forall>pcs w. (Free_interleave x)\<^sup>*\<^sup>* (replicate n AtCAS, w0) (pcs, w) \<longrightarrow>
             (\<forall>s'. \<not> Free_interleave x (pcs, w) s') \<longrightarrow> (\<forall>pc\<in>set pcs. pc = Returned))"
proof -
  obtain a where a: "x = Some a" "a < length (heap w0)" "heap w0 ! a = j"
    using deref_Some [OF assms(1)] by blast
  have init: "Free_inv a (jieba j) (trace w0) n (replicate n AtCAS) w0"
    using a assms(2) by (intro Free_inv_unset) simp_all
  have inv: "Free_inv a (jieba j) (trace w0) n pcs w"
    if reach: "(Free_interleave x)\<^sup>*\<^sup>* (replicate n AtCAS, w0) (pcs, w)" for pcs w
  proof -
    have "Free_inv a (jieba j) (trace w0) n (fst (pcs, w)) (snd (pcs, w))"
    proof (rule Free_inv_reachable)
      show "(Free_interleave (Some a))\<^sup>*\<^sup>* (replicate n AtCAS, w0) (pcs, w)"
        using reach by (simp add: a(1))
      show "Free_inv a (jieba j) (trace w0) n (fst (replicate n AtCAS, w0))
              (snd (replicate n AtCAS, w0))"
        using init by simp
    qed
    then show ?thesis by simp
  qed
  have safe: "\<forall>pcs w. (Free_interleave x)\<^sup>*\<^sup>* (replicate n AtCAS, w0) (pcs, w) \<longrightarrow>
             (\<forall>pc\<in>set pcs. pc = Returned) \<longrightarrow>
             trace w = trace w0 @ [C_FreeJieba (jieba j)] \<and> releases w = Suc (releases w0)"
  proof (intro allI impI)
    fix pcs w
    assume reach: "(Free_interleave x)\<^sup>*\<^sup>* (replicate n AtCAS, w0) (pcs, w)"
      and returned: "\<forall>pc\<in>set pcs. pc = Returned"
    have "trace w = trace w0 @ [C_FreeJieba (jieba j)]"
      using inv [OF reach] assms(3) returned by (rule Free_inv_final)
    then show "trace w = trace w0 @ [C_FreeJieba (jieba j)] \<and> releases w = Suc (releases w0)"
      by (simp add: releases_def)
  qed
  have live: "\<exists>w. (Free_interleave x)\<^sup>*\<^sup>* (replicate n AtCAS, w0) (replicate n Returned, w)"
  proof -
    obtain m where m: "n = Suc m" using assms(3) by (cases n) simp_all
    let ?w1 = "snd (Free (Some a) w0)"
    have first: "(Free_interleave (Some a))\<^sup>*\<^sup>* (AtCAS # replicate m AtCAS, w0)
            (Returned # replicate m AtCAS, ?w1)"
      using a assms(2) by (intro Free_winner_returns) simp_all
    have "a < length (heap ?w1)" and "freed (heap ?w1 ! a) \<noteq> 0"
      using a assms(2) by (simp_all add: Free_first)
    then have "(Free_interleave (Some a))\<^sup>*\<^sup>* ([Returned] @ replicate m AtCAS, ?w1)
            ([Returned] @ replicate m Returned, ?w1)"
      by (rule Free_losers_return)
    then have "(Free_interleave (Some a))\<^sup>*\<^sup>* (Returned # replicate m AtCAS, ?w1)
            (Returned # replicate m Returned, ?w1)"
      by simp
    with first have "(Free_interleave (Some a))\<^sup>*\<^sup>* (AtCAS # replicate m AtCAS, w0)
            (Returned # replicate m Returned, ?w1)"
      by (rule rtranclp_trans)
    then have "(Free_interleave x)\<^sup>*\<^sup>* (replicate n AtCAS, w0) (replicate n Returned, ?w1)"
      by (simp add: a(1) m)
    then show ?thesis ..
  qed
  have noop: "\<forall>w j'. deref x w = Some j' \<longrightarrow> freed j' \<noteq> 0 \<longrightarrow> Free x w = (Inr (), w)"
    using Free_noop by blast
  have tie: "\<forall>w. Free_steps 4 x AtCAS w =
                 (case Free x w of (Inl e, w') \<Rightarrow> (Crashed e, w')
                                 | (Inr u, w') \<Rightarrow> (Returned, w'))"
    using Free_steps_agree by blast
  have loser: "\<forall>pcs w i. (Free_interleave x)\<^sup>*\<^sup>* (replicate n AtCAS, w0) (pcs, w) \<longrightarrow>
             i < n \<longrightarrow> pcs ! i = AtCAS \<longrightarrow> (\<exists>k<n. pcs ! k \<noteq> AtCAS) \<longrightarrow>
             Free_step x (pcs ! i) w = Some (Returned, w)"
  proof (intro allI impI)
    fix pcs w i
    assume "(Free_interleave x)\<^sup>*\<^sup>* (replicate n AtCAS, w0) (pcs, w)"
      and "i < n" and "pcs ! i = AtCAS" and "\<exists>k<n. pcs ! k \<noteq> AtCAS"
    then show "Free_step x (pcs ! i) w = Some (Returned, w)"
      unfolding a(1) using inv [unfolded a(1)] by (intro Free_inv_loser) blast+
  qed
  have enabled: "\<forall>pcs w i. (Free_interleave x)\<^sup>*\<^sup>* (replicate n AtCAS, w0) (pcs, w) \<longrightarrow>
             i < n \<longrightarrow> pcs ! i \<noteq> Returned \<longrightarrow>
             (\<exists>pc' w'. Free_step x (pcs ! i) w = Some (pc', w'))"
  proof (intro allI impI)
    fix pcs w i
    assume "(Free_interleave x)\<^sup>*\<^sup>* (replicate n AtCAS, w0) (pcs, w)"
      and "i < n" and "pcs ! i \<noteq> Returned"
    then show "\<exists>pc' w'. Free_step x (pcs ! i) w = Some (pc', w')"
      unfolding a(1) using inv [unfolded a(1)] by (intro Free_inv_enabled) blast+
  qed
  have bounded: "\<forall>k pcs w. (Free_interleave x ^^ k) (replicate n AtCAS, w0) (pcs, w) \<longrightarrow> k \<le> 4 * n"
  proof (intro allI impI)
    fix k pcs w
    assume "(Free_interleave x ^^ k) (replicate n AtCAS, w0) (pcs, w)"
    then have "k + work (fst (pcs, w)) \<le> work (fst (replicate n AtCAS, w0))"
      by (rule Free_interleave_bounded)
    then show "k \<le> 4 * n" by (simp add: work_replicate)
  qed
  have ended: "\<forall>pcs w. (Free_interleave x)\<^sup>*\<^sup>* (replicate n AtCAS, w0) (pcs, w) \<longrightarrow>
             (\<forall>s'. \<not> Free_interleave x (pcs, w) s') \<longrightarrow> (\<forall>pc\<in>set pcs. pc = Returned)"
  proof (intro allI impI ballI)
    fix pcs w pc
    assume reach: "(Free_interleave x)\<^sup>*\<^sup>* (replicate n AtCAS, w0) (pcs, w)"
      and stuck: "\<forall>s'. \<not> Free_interleave x (pcs, w) s'"
      and "pc \<in> set pcs"
    then obtain i where i: "i < length pcs" "pcs ! i = pc"
      by (auto simp: in_set_conv_nth)
    have len: "length pcs = n"
      using inv [OF reach] by (simp add: Free_inv_length)
    show "pc = Returned"
    proof (rule ccontr)
      assume "pc \<noteq> Returned"
      then obtain pc' w' where "Free_step x (pcs ! i) w = Some (pc', w')"
        using enabled reach i len by blast
      then have "Free_interleave x (pcs, w) (pcs[i := pc'], w')"
        using i(1) by (intro Free_interleave.step)
      with stuck show False by blast
    qed
  qed
  from safe live noop tie loser enabled bounded ended show ?thesis
    by (intro conjI)
qed

theorem Free_releases_exactly_once_witness:
  "(Free_interleave (Some 0))\<^sup>*\<^sup>* ([AtCAS, AtCAS], fresh_handle) ([Returned, Returned], freed_handle)
   \<and> trace freed_handle = trace fresh_handle @ [C_FreeJieba (Some 6)]
   \<and> releases freed_handle = Suc (releases fresh_handle)
   \<and> Free (Some 0) freed_handle = (Inr (), freed_handle)
   \<and> Free_steps 4 (Some 0) AtCAS fresh_handle = (Returned, freed_handle)
   \<and> Free_step (Some 0) AtCAS (fresh_handle\<lparr>heap := [\<lparr>jieba = Some 6, freed = 1\<rparr>]\<rparr>)
       = Some (Returned, fresh_handle\<lparr>heap := [\<lparr>jieba = Some 6, freed = 1\<rparr>]\<rparr>)"
proof -
  let ?w1 = "fresh_handle\<lparr>heap := [\<lparr>jieba = Some 6, freed = 1\<rparr>]\<rparr>"
  let ?w2 = "?w1\<lparr>trace := boot_calls @ [C_FreeJieba (Some 6)]\<rparr>"
  let ?w3 = "?w2\<lparr>heap := [\<lparr>jieba = None, freed = 1\<rparr>]\<rparr>"
  have "Free_step (Some 0) ([AtCAS, AtCAS] ! 1) fresh_handle = Some (AtRelease, ?w1)"
    by (simp add: CompareAndSwapInt32_freed_def deref_def store_def fresh_handle_def)
  then have "Free_interleave (Some 0) ([AtCAS, AtCAS], fresh_handle) ([AtCAS, AtCAS][1 := AtRelease], ?w1)"
    by (intro Free_interleave.step) simp_all
  then have 1: "Free_interleave (Some 0) ([AtCAS, AtCAS], fresh_handle) ([AtCAS, AtRelease], ?w1)"
    by simp
  have "Free_step (Some 0) ([AtCAS, AtRelease] ! 0) ?w1 = Some (Returned, ?w1)"
    by (simp add: CompareAndSwapInt32_freed_def deref_def fresh_handle_def)
  then have "Free_interleave (Some 0) ([AtCAS, AtRelease], ?w1) ([AtCAS, AtRelease][0 := Returned], ?w1)"
    by (intro Free_interleave.step) simp_all
  then have 2: "Free_interleave (Some 0) ([AtCAS, AtRelease], ?w1) ([Returned, AtRelease], ?w1)"
    by simp
  have "Free_step (Some 0) ([Returned, AtRelease] ! 1) ?w1 = Some (AtClear, ?w2)"
    by (simp add: Free_release_def emit_def fresh_handle_def)
  then have "Free_interleave (Some 0) ([Returned, AtRelease], ?w1) ([Returned, AtRelease][1 := AtClear], ?w2)"
    by (intro Free_interleave.step) simp_all
  then have 3: "Free_interleave (Some 0) ([Returned, AtRelease], ?w1) ([Returned, AtClear], ?w2)"
    by simp
  have "Free_step (Some 0) ([Returned, AtClear] ! 1) ?w2 = Some (AtUnhook, ?w3)"
    by (simp add: Free_clear_def store_def fresh_handle_def)
  then have "Free_interleave (Some 0) ([Returned, AtClear], ?w2) ([Returned, AtClear][1 := AtUnhook], ?w3)"
    by (intro Free_interleave.step) simp_all
  then have 4: "Free_interleave (Some 0) ([Returned, AtClear], ?w2) ([Returned, AtUnhook], ?w3)"
    by simp
  have "Free_step (Some 0) ([Returned, AtUnhook] ! 1) ?w3 = Some (Returned, freed_handle)"
    by (simp add: Free_unhook_def SetFinalizer_def fresh_handle_def freed_handle_def)
  then have "Free_interleave (Some 0) ([Returned, AtUnhook], ?w3) ([Returned, AtUnhook][1 := Returned], freed_handle)"
    by (intro Free_interleave.step) simp_all
  then have 5: "Free_interleave (Some 0) ([Returned, AtUnhook], ?w3) ([Returned, Returned], freed_handle)"
    by simp
  have "(Free_interleave (Some 0))\<^sup>*\<^sup>* ([AtCAS, AtCAS], fresh_handle) ([AtCAS, AtRelease], ?w1)"
    using 1 by (rule r_into_rtranclp)
  then have "(Free_interleave (Some 0))\<^sup>*\<^sup>* ([AtCAS, AtCAS], fresh_handle) ([Returned, AtRelease], ?w1)"
    using 2 by (rule rtranclp.rtrancl_into_rtrancl)
  then have "(Free_interleave (Some 0))\<^sup>*\<^sup>* ([AtCAS, AtCAS], fresh_handle) ([Returned, AtClear], ?w2)"
    using 3 by (rule rtranclp.rtrancl_into_rtrancl)
  then have "(Free_interleave (Some 0))\<^sup>*\<^sup>* ([AtCAS, AtCAS], fresh_handle) ([Returned, AtUnhook], ?w3)"
    using 4 by (rule rtranclp.rtrancl_into_rtrancl)
  then have reach: "(Free_interleave (Some 0))\<^sup>*\<^sup>* ([AtCAS, AtCAS], fresh_handle)
                      ([Returned, Returned], freed_handle)"
    using 5 by (rule rtranclp.rtrancl_into_rtrancl)
  have mid: "(Free_interleave (Some 0))\<^sup>*\<^sup>* ([AtCAS, AtCAS], fresh_handle) ([AtCAS, AtRelease], ?w1)"
    using 1 by (rule r_into_rtranclp)
  have unset: "freed \<lparr>jieba = Some 6, freed = 0\<rparr> = 0" by simp
  have two: "replicate 2 AtCAS = [AtCAS, AtCAS]" by (simp add: numeral_2_eq_2)
  have set: "freed \<lparr>jieba = None, freed = 1\<rparr> \<noteq> 0" by simp
  note all = Free_releases_exactly_once [OF deref_fresh_handle unset, of 2, unfolded two]
  note safe = all [OF zero_less_numeral, THEN conjunct1, rule_format, OF reach]
  note noop = all [OF zero_less_numeral, THEN conjunct2, THEN conjunct2, THEN conjunct1,
    rule_format, OF deref_freed_handle set]
  note tie = all [OF zero_less_numeral, THEN conjunct2, THEN conjunct2, THEN conjunct2,
    THEN conjunct1, rule_format, of fresh_handle]
  note loser = all [OF zero_less_numeral, THEN conjunct2, THEN conjunct2, THEN conjunct2,
    THEN conjunct2, THEN conjunct1, rule_format, OF mid, of 0]
  have "trace freed_handle = trace fresh_handle @ [C_FreeJieba (jieba \<lparr>jieba = Some 6, freed = 0\<rparr>)]
        \<and> releases freed_handle = Suc (releases fresh_handle)"
    by (rule safe) simp
  then have made: "trace freed_handle = trace fresh_handle @ [C_FreeJieba (Some 6)]"
    and count: "releases freed_handle = Suc (releases fresh_handle)"
    by simp_all
  from tie have alone: "Free_steps 4 (Some 0) AtCAS fresh_handle = (Returned, freed_handle)"
    by (simp add: Free_fresh_handle)
  have "\<exists>k<2. [AtCAS, AtRelease] ! k \<noteq> AtCAS"
    by (intro exI [of _ 1]) simp
  then have "Free_step (Some 0) ([AtCAS, AtRelease] ! 0) ?w1 = Some (Returned, ?w1)"
    by (intro loser) simp_all
  then have late: "Free_step (Some 0) AtCAS ?w1 = Some (Returned, ?w1)"
    by simp
  from reach made count noop alone late show ?thesis
    by (intro conjI)
qed

text \<open>
  Claim C1. \<open>Cut\<close>, \<open>CutAll\<close>, \<open>CutForSearch\<close> and \<open>Tag\<close> begin with
  \<open>checkFreed\<close>, and on a freed handle they panic with nothing marshalled and no
  native call made. \<open>Tokenize\<close>, \<open>Extract\<close> and \<open>ExtractWithWeight\<close> do not: in the
  process that constructs a handle and frees it, each of the three, called on
  that handle, makes its C string and calls the native function with the nil
  reference the handle now holds, where the four others panic.
\<close>

theorem Tokenize_Extract_reach_native_on_freed_handle:
  "run example_env [A_NewJieba [], A_Free (Some 0)] (boot dicts_present) = freed_handle
   \<and> checkFreed (Some 0) freed_handle = Inl (Panic ''Jieba instance has been freed'')
   \<and> Cut example_env (Some 0) ''a'' True freed_handle
       = (Inl (Panic ''Jieba instance has been freed''), freed_handle)
   \<and> Tokenize example_env (Some 0) ''a'' DefaultMode True freed_handle
       = (Inr [], emits [C_CString ''a'', C_Tokenize None ''a'' 0 1, C_free_Words, C_free ''a'']
                    freed_handle)
   \<and> Extract example_env (Some 0) ''a'' 5 freed_handle
       = (Inr [], emits [C_CString ''a'', C_Extract None ''a'' 5, C_FreeWords, C_free ''a'']
                    freed_handle)
   \<and> ExtractWithWeight example_env (Some 0) ''a'' 5 freed_handle
       = (Inr [], emits [C_CString ''a'', C_ExtractWithWeight None ''a'' 5, C_FreeWordWeights,
                         C_free ''a''] freed_handle)"
proof (intro conjI)
  show "run example_env [A_NewJieba [], A_Free (Some 0)] (boot dicts_present) = freed_handle"
    by (simp add: NewJieba_boot Free_fresh_handle)
  show "checkFreed (Some 0) freed_handle = Inl (Panic ''Jieba instance has been freed'')"
    by (simp add: checkFreed_def LoadInt32_freed_def deref_freed_handle)
  then show "Cut example_env (Some 0) ''a'' True freed_handle
       = (Inl (Panic ''Jieba instance has been freed''), freed_handle)"
    by (simp add: Cut_def)
  show "Tokenize example_env (Some 0) ''a'' DefaultMode True freed_handle
       = (Inr [], emits [C_CString ''a'', C_Tokenize None ''a'' 0 1, C_free_Words, C_free ''a'']
                    freed_handle)"
    by (simp add: Tokenize_def deref_freed_handle emit_emits emits_emits Let_def
        DefaultMode_def c_int_hmm_def example_env_def)
  show "Extract example_env (Some 0) ''a'' 5 freed_handle
       = (Inr [], emits [C_CString ''a'', C_Extract None ''a'' 5, C_FreeWords, C_free ''a'']
                    freed_handle)"
    by (simp add: Extract_def deref_freed_handle emit_emits emits_emits Let_def example_env_def)
  show "ExtractWithWeight example_env (Some 0) ''a'' 5 freed_handle
       = (Inr [], emits [C_CString ''a'', C_ExtractWithWeight None ''a'' 5, C_FreeWordWeights,
                         C_free ''a''] freed_handle)"
    by (simp add: ExtractWithWeight_def deref_freed_handle emit_emits emits_emits Let_def
        example_env_def cwordweights_def)
qed

end
